theory Spec2Isabelle
  imports Complex_Main
begin

section \<open>The game of rpsls.py as HOL functions\<close>

text \<open>
  Moves are Python strings, so they are \<^typ>\<open>string\<close> here; the five moves of the game
  are the entries of \<open>MOVES\<close>. Every exception the source can raise is a value of
  \<open>error\<close>, and a function that can raise returns \<open>error + 'a\<close>. A method that
  mutates its object returns the object as it is when the method returns or raises.
  Each call of \<open>random.choice\<close> takes the number drawn as an argument: the element
  picked from a sequence of length \<open>n\<close> is the one at index \<open>r mod n\<close>, so that every
  index can be drawn.
\<close>

datatype error = KeyError | IndexError | ValueError

subsection \<open>Python helpers\<close>

text \<open>\<open>random.choice(seq)\<close>: raises IndexError on an empty sequence.\<close>

definition random_choice :: "nat \<Rightarrow> 'a list \<Rightarrow> error + 'a" where
  "random_choice r xs = (if xs = [] then Inl IndexError else Inr (xs ! (r mod length xs)))"

text \<open>\<open>xs[i]\<close> with \<open>i\<close> a Python int: \<open>xs[-k]\<close> is the \<open>k\<close>-th entry from the end, and an
  index outside \<open>-len(xs) .. len(xs) - 1\<close> raises IndexError.\<close>

definition py_index :: "'a list \<Rightarrow> int \<Rightarrow> error + 'a" where
  "py_index xs i =
     (if 0 \<le> i \<and> i < int (length xs) then Inr (xs ! nat i)
      else if i < 0 \<and> - int (length xs) \<le> i then Inr (xs ! nat (int (length xs) + i))
      else Inl IndexError)"

text \<open>\<open>xs[-n:]\<close> for \<open>n \<ge> 0\<close>: the last \<open>n\<close> entries, all of \<open>xs\<close> when it is shorter,
  and all of \<open>xs\<close> when \<open>n = 0\<close> (\<open>xs[-0:]\<close> is \<open>xs[0:]\<close>).\<close>

definition py_last_n :: "'a list \<Rightarrow> nat \<Rightarrow> 'a list" where
  "py_last_n xs n = (if n = 0 then xs else drop (length xs - n) xs)"

text \<open>\<open>xs.index(x)\<close>: the first position of \<open>x\<close>, ValueError when it is absent.\<close>

fun list_index :: "'a list \<Rightarrow> 'a \<Rightarrow> error + nat" where
  "list_index [] x = Inl ValueError"
| "list_index (y # ys) x =
     (if y = x then Inr 0
      else (case list_index ys x of Inl e \<Rightarrow> Inl e | Inr i \<Rightarrow> Inr (Suc i)))"

text \<open>
  \<open>collections.Counter(xs)\<close> is a dict from element to count whose keys stand in the
  order of their first occurrence: an association list. \<open>counter_add\<close> is one
  \<open>c[x] += 1\<close>.
\<close>

fun counter_add :: "'a \<Rightarrow> ('a \<times> nat) list \<Rightarrow> ('a \<times> nat) list" where
  "counter_add x [] = [(x, 1)]"
| "counter_add x ((y, n) # kvs) =
     (if x = y then (y, Suc n) # kvs else (y, n) # counter_add x kvs)"

definition Counter :: "'a list \<Rightarrow> ('a \<times> nat) list" where
  "Counter xs = foldl (\<lambda>c x. counter_add x c) [] xs"

text \<open>
  \<open>c.most_common(1)\<close> is \<open>heapq.nlargest(1, c.items(), key=count)\<close>, which for one
  element is \<open>max\<close> with a key: the running best is replaced only by an item with a
  strictly larger count, so among equal counts the first item stays.
\<close>

fun max_first :: "('a \<times> nat) \<Rightarrow> ('a \<times> nat) list \<Rightarrow> ('a \<times> nat)" where
  "max_first best [] = best"
| "max_first best (kv # kvs) = max_first (if snd best < snd kv then kv else best) kvs"

definition most_common_1 :: "('a \<times> nat) list \<Rightarrow> ('a \<times> nat) list" where
  "most_common_1 c = (case c of [] \<Rightarrow> [] | kv # kvs \<Rightarrow> [max_first kv kvs])"

text \<open>\<open>Counter(xs).most_common(1)[0][0]\<close>: IndexError when \<open>xs\<close> is empty.\<close>

definition most_common_move :: "'a list \<Rightarrow> error + 'a" where
  "most_common_move xs =
     (case most_common_1 (Counter xs) of [] \<Rightarrow> Inl IndexError | kv # _ \<Rightarrow> Inr (fst kv))"

text \<open>The truth value of an \<open>Optional[str]\<close>: \<open>None\<close> and the empty string are false.\<close>

fun truthy :: "string option \<Rightarrow> bool" where
  "truthy None = False"
| "truthy (Some s) = (s \<noteq> [])"

subsection \<open>RPSLSState\<close>

definition MOVES :: "string list" where
  "MOVES = [''rock'', ''paper'', ''scissors'', ''lizard'', ''spock'']"

definition WINS_AGAINST :: "string \<rightharpoonup> string list" where
  "WINS_AGAINST = map_of
     [(''rock'', [''scissors'', ''lizard'']),
      (''paper'', [''rock'', ''spock'']),
      (''scissors'', [''paper'', ''lizard'']),
      (''lizard'', [''paper'', ''spock'']),
      (''spock'', [''rock'', ''scissors''])]"

record RPSLSState =
  player_history :: "string list"
  opponent_history :: "string list"

text \<open>\<open>get_result\<close>: 0 is a draw, 1 a win of \<open>move1\<close>, -1 a loss. \<open>WINS_AGAINST[move1]\<close>
  raises KeyError for a string that is no move.\<close>

definition get_result :: "string \<Rightarrow> string \<Rightarrow> error + int" where
  "get_result move1 move2 =
     (if move1 = move2 then Inr 0
      else (case WINS_AGAINST move1 of
              None \<Rightarrow> Inl KeyError
            | Some beaten \<Rightarrow> if move2 \<in> set beaten then Inr 1 else Inr (- 1)))"

subsection \<open>PatternDetector\<close>

text \<open>
  \<open>window_size\<close> is a Python int; the program builds its detector with the default 3
  and the model takes it from the naturals. The slice \<open>[-window_size:]\<close> is \<open>py_last_n\<close>,
  which also says what the source does for 0.

  \<open>frequency_threshold\<close> is a Python float and \<open>count / total_moves\<close> a float division.
  The model compares exact rationals, with the default 0.3 as 3/10. On the windows of
  the program the two agree: the window holds at most 50 moves, so \<open>count / total\<close>
  is either exactly 3/10, and then rounds to the same double as the literal 0.3, or
  differs from 3/10 by at least 1/500, far more than the rounding error of a double.
\<close>

record PatternDetector =
  window_size :: nat
  frequency_threshold :: rat
  move_history :: "string list"
  pattern_cache :: "string \<rightharpoonup> string"

text \<open>The constructor's defaults; \<open>deque(maxlen=50)\<close> starts empty.\<close>

definition new_detector :: PatternDetector where
  "new_detector =
     \<lparr>window_size = 3, frequency_threshold = 3 / 10, move_history = [], pattern_cache = Map.empty\<rparr>"

text \<open>\<open>deque.append\<close> with \<open>maxlen = 50\<close>: a full deque drops its oldest entry.\<close>

definition add_move :: "string \<Rightarrow> PatternDetector \<Rightarrow> PatternDetector" where
  "add_move move d =
     d\<lparr>move_history :=
         (if length (move_history d) \<ge> 50 then tl (move_history d) else move_history d) @ [move]\<rparr>"

text \<open>The \<open>for i in range(len(h) - w)\<close> loop of \<open>get_pattern_prediction\<close>: the list of
  the moves it appends, in the order of the scan.\<close>

definition pattern_occurrences :: "string list \<Rightarrow> nat \<Rightarrow> string list \<Rightarrow> string list" where
  "pattern_occurrences h w recent_moves =
     map (\<lambda>i. h ! (i + w))
       (filter (\<lambda>i. take w (drop i h) = recent_moves \<and> i + w < length h) [0..<length h - w])"

definition get_pattern_prediction ::
  "PatternDetector \<Rightarrow> (error + string option) \<times> PatternDetector" where
  "get_pattern_prediction d =
     (if length (move_history d) < window_size d then (Inr None, d)
      else
        let recent_moves = py_last_n (move_history d) (window_size d);
            pattern_key = concat recent_moves
        in (case pattern_cache d pattern_key of
              Some cached \<Rightarrow> (Inr (Some cached), d)
            | None \<Rightarrow>
                let occurrences = pattern_occurrences (move_history d) (window_size d) recent_moves
                in if occurrences \<noteq> [] then
                     (case most_common_move occurrences of
                        Inl e \<Rightarrow> (Inl e, d)
                      | Inr prediction \<Rightarrow>
                          (Inr (Some prediction),
                           d\<lparr>pattern_cache := (pattern_cache d)(pattern_key \<mapsto> prediction)\<rparr>))
                   else (Inr None, d)))"

definition get_frequency_bias :: "PatternDetector \<Rightarrow> string option" where
  "get_frequency_bias d =
     (if move_history d = [] then None
      else
        let move_counts = Counter (move_history d);
            total_moves = length (move_history d)
        in map_option fst
             (List.find (\<lambda>(move, count). of_nat count / of_nat total_moves \<ge> frequency_threshold d)
                move_counts))"

subsection \<open>RPSLSGame\<close>

record RPSLSGame =
  state :: RPSLSState
  pattern_detector :: PatternDetector

definition new_game :: RPSLSGame where
  "new_game = \<lparr>state = \<lparr>player_history = [], opponent_history = []\<rparr>,
               pattern_detector = new_detector\<rparr>"

text \<open>The list comprehension of \<open>get_counter_move\<close> over \<open>ms\<close>; \<open>WINS_AGAINST[m]\<close> raises
  KeyError for a missing key.\<close>

fun counters_in :: "string list \<Rightarrow> string \<Rightarrow> error + string list" where
  "counters_in [] move = Inr []"
| "counters_in (m # ms) move =
     (case WINS_AGAINST m of
        None \<Rightarrow> Inl KeyError
      | Some beaten \<Rightarrow>
          (case counters_in ms move of
             Inl e \<Rightarrow> Inl e
           | Inr cs \<Rightarrow> Inr (if move \<in> set beaten then m # cs else cs)))"

definition possible_counters :: "string \<Rightarrow> error + string list" where
  "possible_counters move = counters_in MOVES move"

definition get_counter_move :: "nat \<Rightarrow> string \<Rightarrow> error + string" where
  "get_counter_move r move =
     (case possible_counters move of Inl e \<Rightarrow> Inl e | Inr cs \<Rightarrow> random_choice r cs)"

text \<open>\<open>get_ai_move\<close> returns the move (or the exception) and the game, whose pattern
  cache the first step may have extended.\<close>

definition get_ai_move :: "nat \<Rightarrow> RPSLSGame \<Rightarrow> (error + string) \<times> RPSLSGame" where
  "get_ai_move r g =
     (case get_pattern_prediction (pattern_detector g) of
        (Inl e, d) \<Rightarrow> (Inl e, g\<lparr>pattern_detector := d\<rparr>)
      | (Inr pattern_prediction, d) \<Rightarrow>
          let g' = g\<lparr>pattern_detector := d\<rparr> in
          if truthy pattern_prediction then (get_counter_move r (the pattern_prediction), g')
          else
            let frequency_bias = get_frequency_bias d in
            if truthy frequency_bias then (get_counter_move r (the frequency_bias), g')
            else if opponent_history (state g') \<noteq> [] then
              (case most_common_move (py_last_n (opponent_history (state g')) 5) of
                 Inl e \<Rightarrow> (Inl e, g')
               | Inr most_common \<Rightarrow> (get_counter_move r most_common, g'))
            else (random_choice r MOVES, g'))"

text \<open>The first statement of \<open>play_round\<close>: the opponent's move. \<open>r\<close> is the number
  drawn if the branch taken calls \<open>random.choice\<close>.\<close>

definition opponent_move ::
  "string \<Rightarrow> string list option \<Rightarrow> int \<Rightarrow> nat \<Rightarrow> RPSLSGame \<Rightarrow> error + string" where
  "opponent_move opponent_strategy custom_moves round_number r g =
     (if opponent_strategy = ''random'' then random_choice r MOVES
      else if opponent_strategy = ''repeating'' then
        (if opponent_history (state g) \<noteq> [] then Inr (last (opponent_history (state g)))
         else random_choice r MOVES)
      else if opponent_strategy = ''cycling'' then
        (if opponent_history (state g) \<noteq> [] then
           (case list_index MOVES (last (opponent_history (state g))) of
              Inl e \<Rightarrow> Inl e
            | Inr i \<Rightarrow> Inr (MOVES ! ((i + 1) mod length MOVES)))
         else Inr (MOVES ! 0))
      else if opponent_strategy = ''custom'' then
        (case custom_moves of
           None \<Rightarrow> random_choice r MOVES
         | Some ms \<Rightarrow>
             if ms \<noteq> [] \<and> round_number < int (length ms) then py_index ms round_number
             else random_choice r MOVES)
      else random_choice r MOVES)"

text \<open>\<open>play_round\<close>; \<open>ro\<close> and \<open>ra\<close> are the numbers drawn for the opponent and for the
  predictor. The game returned is the object after the call, also when it raised.\<close>

definition play_round ::
  "string \<Rightarrow> string list option \<Rightarrow> int \<Rightarrow> nat \<Rightarrow> nat \<Rightarrow> RPSLSGame
     \<Rightarrow> (error + string \<times> string \<times> int) \<times> RPSLSGame" where
  "play_round opponent_strategy custom_moves round_number ro ra g =
     (case opponent_move opponent_strategy custom_moves round_number ro g of
        Inl e \<Rightarrow> (Inl e, g)
      | Inr om \<Rightarrow>
          (case get_ai_move ra (g\<lparr>pattern_detector := add_move om (pattern_detector g)\<rparr>) of
             (Inl e, g') \<Rightarrow> (Inl e, g')
           | (Inr ai_move, g') \<Rightarrow>
               let g'' = g'\<lparr>state := (state g')
                            \<lparr>opponent_history := opponent_history (state g') @ [om],
                             player_history := player_history (state g') @ [ai_move]\<rparr>\<rparr>
               in (case get_result ai_move om of
                     Inl e \<Rightarrow> (Inl e, g'')
                   | Inr result \<Rightarrow> (Inr (ai_move, om, result), g''))))"

text \<open>The loop of \<open>demonstrate_game\<close>, without its printing and plotting: round \<open>i\<close> is
  \<open>play_round(opponent_strategy, custom_moves, i)\<close>, with the draws \<open>ro i\<close> and \<open>ra i\<close>;
  an exception ends the loop.\<close>

fun play_rounds ::
  "string \<Rightarrow> string list option \<Rightarrow> (nat \<Rightarrow> nat) \<Rightarrow> (nat \<Rightarrow> nat) \<Rightarrow> nat \<Rightarrow> nat \<Rightarrow> RPSLSGame
     \<Rightarrow> error + (string \<times> string \<times> int) list \<times> RPSLSGame" where
  "play_rounds opponent_strategy custom_moves ro ra i 0 g = Inr ([], g)"
| "play_rounds opponent_strategy custom_moves ro ra i (Suc n) g =
     (case play_round opponent_strategy custom_moves (int i) (ro i) (ra i) g of
        (Inl e, g') \<Rightarrow> Inl e
      | (Inr played, g') \<Rightarrow>
          (case play_rounds opponent_strategy custom_moves ro ra (Suc i) n g' of
             Inl e \<Rightarrow> Inl e
           | Inr (later, g'') \<Rightarrow> Inr (played # later, g'')))"

definition demonstrate_game ::
  "nat \<Rightarrow> string \<Rightarrow> string list option \<Rightarrow> (nat \<Rightarrow> nat) \<Rightarrow> (nat \<Rightarrow> nat)
     \<Rightarrow> error + (string \<times> string \<times> int) list \<times> RPSLSGame" where
  "demonstrate_game rounds opponent_strategy custom_moves ro ra =
     play_rounds opponent_strategy custom_moves ro ra 0 rounds new_game"

section \<open>Notions the properties are stated with\<close>

text \<open>The elements of a list in the order of their first occurrence: the order of the
  keys of a \<open>Counter\<close> built from the list.\<close>

primrec first_seen :: "'a list \<Rightarrow> 'a list" where
  "first_seen [] = []"
| "first_seen (x # xs) = x # filter (\<lambda>y. y \<noteq> x) (first_seen xs)"

text \<open>\<open>m\<close> is the most frequent element of \<open>xs\<close>, ties broken by the order of first
  occurrence: \<open>m\<close> occurs in \<open>xs\<close>, nothing occurs more often, and everything that
  occurs before the first \<open>m\<close> occurs strictly less often.\<close>

definition most_frequent_first :: "'a list \<Rightarrow> 'a \<Rightarrow> bool" where
  "most_frequent_first xs m \<longleftrightarrow>
     m \<in> set xs \<and>
     (\<forall>y \<in> set xs. count_list xs y \<le> count_list xs m) \<and>
     (\<forall>y \<in> set (takeWhile (\<lambda>y. y \<noteq> m) xs). count_list xs y < count_list xs m)"

text \<open>\<open>a\<close> beats \<open>b\<close>: \<open>b\<close> is in the win-set of \<open>a\<close>.\<close>

definition beats :: "string \<Rightarrow> string \<Rightarrow> bool" where
  "beats a b = (case WINS_AGAINST a of None \<Rightarrow> False | Some beaten \<Rightarrow> b \<in> set beaten)"

text \<open>The moves that follow the other occurrences of the last \<open>w\<close> moves of \<open>h\<close>: position
  \<open>i\<close> is such an occurrence when it is not the position of the last \<open>w\<close> moves
  themselves, the \<open>w\<close> moves from \<open>i\<close> on are the last \<open>w\<close> moves, and a move is recorded
  after them. The followers stand in the order of the positions.\<close>

definition followers :: "string list \<Rightarrow> nat \<Rightarrow> string list" where
  "followers h w =
     map (\<lambda>i. h ! (i + w))
       (filter (\<lambda>i. i \<noteq> length h - w \<and> take w (drop i h) = drop (length h - w) h \<and>
                    i + w < length h)
          [0..<length h])"

text \<open>A detector, a game and a custom move sequence that hold moves of the game only.\<close>

definition valid_detector :: "PatternDetector \<Rightarrow> bool" where
  "valid_detector d \<longleftrightarrow>
     set (move_history d) \<subseteq> set MOVES \<and> (\<forall>k v. pattern_cache d k = Some v \<longrightarrow> v \<in> set MOVES)"

definition valid_moves :: "RPSLSGame \<Rightarrow> bool" where
  "valid_moves g \<longleftrightarrow>
     valid_detector (pattern_detector g) \<and> set (opponent_history (state g)) \<subseteq> set MOVES"

definition valid_custom :: "string list option \<Rightarrow> bool" where
  "valid_custom custom_moves \<longleftrightarrow>
     (case custom_moves of None \<Rightarrow> True | Some ms \<Rightarrow> set ms \<subseteq> set MOVES)"

text \<open>The games that calls of \<open>play_round\<close> with moves of the game reach from a new game,
  whatever the strategies, round numbers and draws.\<close>

inductive reachable :: "RPSLSGame \<Rightarrow> bool" where
  start: "reachable new_game"
| round: "reachable g \<Longrightarrow> valid_custom custom_moves \<Longrightarrow>
          reachable (snd (play_round opponent_strategy custom_moves round_number ro ra g))"

text \<open>\<open>evolves g g'\<close>: calls of the methods that change a game or its detector
  (\<open>play_round\<close>, \<open>get_ai_move\<close>, \<open>get_pattern_prediction\<close>, \<open>add_move\<close>), with any
  arguments, lead from \<open>g\<close> to \<open>g'\<close>.\<close>

inductive evolves :: "RPSLSGame \<Rightarrow> RPSLSGame \<Rightarrow> bool" where
  same: "evolves g g"
| played: "evolves g g' \<Longrightarrow>
           evolves g (snd (play_round opponent_strategy custom_moves round_number ro ra g'))"
| asked: "evolves g g' \<Longrightarrow> evolves g (snd (get_ai_move r g'))"
| predicted: "evolves g g' \<Longrightarrow>
              evolves g (g'\<lparr>pattern_detector := snd (get_pattern_prediction (pattern_detector g'))\<rparr>)"
| added: "evolves g g' \<Longrightarrow>
          evolves g (g'\<lparr>pattern_detector := add_move move (pattern_detector g')\<rparr>)"

text \<open>The return statement that \<open>get_ai_move\<close> reaches in a game: the tier of the
  priority chain that decides the move (an exception in the first step counts for it).\<close>

datatype tier = Pattern_match | Frequency_bias | Recent_majority | Random_fallback

definition ai_tier :: "RPSLSGame \<Rightarrow> tier" where
  "ai_tier g =
     (case get_pattern_prediction (pattern_detector g) of
        (Inl e, d) \<Rightarrow> Pattern_match
      | (Inr pattern_prediction, d) \<Rightarrow>
          if truthy pattern_prediction then Pattern_match
          else if truthy (get_frequency_bias d) then Frequency_bias
          else if opponent_history (state g) \<noteq> [] then Recent_majority
          else Random_fallback)"

text \<open>\<open>p\<close> is the move that the first three tiers of \<open>get_ai_move\<close> predict for a
  detector \<open>d\<close> and an opponent history \<open>hist\<close>: the pattern prediction; or, when there
  is none, the frequency bias; or, when there is neither and the history is not empty,
  the most frequent of the last five moves of the history, ties broken by first
  occurrence.\<close>

definition predicted_move :: "PatternDetector \<Rightarrow> string list \<Rightarrow> string \<Rightarrow> bool" where
  "predicted_move d hist p \<longleftrightarrow>
     fst (get_pattern_prediction d) = Inr (Some p) \<or>
     fst (get_pattern_prediction d) = Inr None \<and> get_frequency_bias d = Some p \<or>
     fst (get_pattern_prediction d) = Inr None \<and> get_frequency_bias d = None \<and>
       hist \<noteq> [] \<and> most_frequent_first (drop (length hist - 5) hist) p"

section \<open>Properties of the helpers\<close>

lemma Counter_snoc: "Counter (xs @ [x]) = counter_add x (Counter xs)"
  by (simp add: Counter_def)

lemma set_first_seen: "set (first_seen xs) = set xs"
  by (induction xs) auto

lemma distinct_first_seen: "distinct (first_seen xs)"
  by (induction xs) auto

lemma first_seen_snoc:
  "first_seen (xs @ [x]) = (if x \<in> set xs then first_seen xs else first_seen xs @ [x])"
  by (induction xs) auto

lemma counter_add_map:
  "distinct ks \<Longrightarrow>
   counter_add x (map (\<lambda>k. (k, f k)) ks) =
     (if x \<in> set ks then map (\<lambda>k. (k, if k = x then Suc (f k) else f k)) ks
      else map (\<lambda>k. (k, f k)) ks @ [(x, 1)])"
  by (induction ks) auto

lemma Counter_eq: "Counter xs = map (\<lambda>k. (k, count_list xs k)) (first_seen xs)"
proof (induction xs rule: rev_induct)
  case Nil
  show ?case by (simp add: Counter_def)
next
  case (snoc x xs)
  show ?case
  proof (cases "x \<in> set xs")
    case True
    then show ?thesis
      by (simp add: Counter_snoc snoc counter_add_map distinct_first_seen set_first_seen
          first_seen_snoc)
  next
    case False
    then show ?thesis
      by (auto simp: Counter_snoc snoc counter_add_map distinct_first_seen set_first_seen
          first_seen_snoc count_list_0_iff)
  qed
qed

lemma find_map_fst:
  "List.find P (map f xs) = map_option f (List.find (\<lambda>x. P (f x)) xs)"
  by (induction xs) auto

lemma find_filter_neq: "\<not> P x \<Longrightarrow> List.find P (filter (\<lambda>y. y \<noteq> x) ys) = List.find P ys"
  by (induction ys) auto

lemma find_first_seen: "List.find P (first_seen xs) = List.find P xs"
proof (induction xs)
  case Nil
  show ?case by simp
next
  case (Cons x xs)
  show ?case
  proof (cases "P x")
    case True
    then show ?thesis by simp
  next
    case False
    then show ?thesis using Cons by (simp add: find_filter_neq)
  qed
qed

lemma takeWhile_filter_neq:
  "x \<noteq> m \<Longrightarrow> set (takeWhile (\<lambda>y. y \<noteq> m) (filter (\<lambda>y. y \<noteq> x) ys)) =
     set (takeWhile (\<lambda>y. y \<noteq> m) ys) - {x}"
proof (induction ys)
  case Nil
  show ?case by simp
next
  case (Cons y ys)
  then show ?case by (cases "y = m"; cases "y = x") auto
qed

lemma takeWhile_first_seen:
  "set (takeWhile (\<lambda>y. y \<noteq> m) (first_seen xs)) = set (takeWhile (\<lambda>y. y \<noteq> m) xs)"
  by (induction xs) (auto simp: takeWhile_filter_neq)

lemma max_first_props:
  "max_first b kvs \<in> set (b # kvs) \<and>
   (\<forall>e \<in> set (b # kvs). snd e \<le> snd (max_first b kvs)) \<and>
   (\<forall>e \<in> set (takeWhile (\<lambda>e. e \<noteq> max_first b kvs) (b # kvs)). snd e < snd (max_first b kvs))"
proof (induction kvs arbitrary: b)
  case Nil
  show ?case by simp
next
  case (Cons kv kvs)
  define b' where "b' = (if snd b < snd kv then kv else b)"
  define r where "r = max_first b' kvs"
  have r: "max_first b (kv # kvs) = r" by (simp add: r_def b'_def)
  have mem: "r \<in> set (b' # kvs)"
    and ge: "\<forall>e \<in> set (b' # kvs). snd e \<le> snd r"
    and before: "\<forall>e \<in> set (takeWhile (\<lambda>e. e \<noteq> r) (b' # kvs)). snd e < snd r"
    using Cons [of b'] unfolding r_def by blast+
  have b'_le: "snd b' \<le> snd r" using ge by simp
  have 1: "r \<in> set (b # kv # kvs)" using mem by (auto simp: b'_def split: if_splits)
  have 2: "\<forall>e \<in> set (b # kv # kvs). snd e \<le> snd r"
    using ge b'_le by (auto simp: b'_def split: if_splits)
  have 3: "\<forall>e \<in> set (takeWhile (\<lambda>e. e \<noteq> r) (b # kv # kvs)). snd e < snd r"
  proof (cases "snd b < snd kv")
    case True
    then have "b' = kv" by (simp add: b'_def)
    with before b'_le True show ?thesis by auto
  next
    case False
    then have b': "b' = b" by (simp add: b'_def)
    show ?thesis
    proof (cases "b = r")
      case True
      then show ?thesis by simp
    next
      case neq: False
      with before b' have lt: "snd b < snd r"
        and rest: "\<forall>e \<in> set (takeWhile (\<lambda>e. e \<noteq> r) kvs). snd e < snd r"
        by auto
      from lt False have "snd kv < snd r" by simp
      with lt rest neq show ?thesis by auto
    qed
  qed
  from 1 2 3 show ?case unfolding r by blast
qed

lemma takeWhile_neq_cases:
  "m \<in> set xs \<Longrightarrow> m' \<in> set xs \<Longrightarrow> m \<noteq> m' \<Longrightarrow>
   m' \<in> set (takeWhile (\<lambda>y. y \<noteq> m) xs) \<or> m \<in> set (takeWhile (\<lambda>y. y \<noteq> m') xs)"
  by (induction xs) auto

lemma most_frequent_first_unique:
  assumes "most_frequent_first xs m" and "most_frequent_first xs m'"
  shows "m = m'"
proof (rule ccontr)
  assume neq: "m \<noteq> m'"
  from assms have mem: "m \<in> set xs" "m' \<in> set xs"
    by (simp_all add: most_frequent_first_def)
  from assms mem have le: "count_list xs m' \<le> count_list xs m" "count_list xs m \<le> count_list xs m'"
    by (simp_all add: most_frequent_first_def)
  from takeWhile_neq_cases [OF mem neq]
  have "count_list xs m' < count_list xs m \<or> count_list xs m < count_list xs m'"
    using assms by (auto simp: most_frequent_first_def)
  with le show False by simp
qed

lemma most_common_move_first:
  assumes "xs \<noteq> []"
  shows "\<exists>m. most_common_move xs = Inr m \<and> most_frequent_first xs m"
proof -
  from assms obtain x ys where xs: "xs = x # ys" by (cases xs) auto
  define c where "c = (\<lambda>k. (k, count_list xs k))"
  define ks where "ks = filter (\<lambda>y. y \<noteq> x) (first_seen ys)"
  have keys: "first_seen xs = x # ks" by (simp add: xs ks_def)
  have C: "Counter xs = c x # map c ks" by (simp add: Counter_eq keys c_def)
  define r where "r = max_first (c x) (map c ks)"
  have mc: "most_common_move xs = Inr (fst r)"
    by (simp add: most_common_move_def most_common_1_def C r_def)
  have all: "c x # map c ks = map c (first_seen xs)" by (simp add: keys)
  from max_first_props [of "c x" "map c ks"]
  have mem: "r \<in> set (map c (first_seen xs))"
    and ge: "\<forall>e \<in> set (map c (first_seen xs)). snd e \<le> snd r"
    and before: "\<forall>e \<in> set (takeWhile (\<lambda>e. e \<noteq> r) (map c (first_seen xs))). snd e < snd r"
    unfolding r_def [symmetric] all by blast+
  from mem obtain m where m: "m \<in> set xs" "r = c m" by (auto simp: set_first_seen)
  have tw: "takeWhile (\<lambda>e. e \<noteq> r) (map c (first_seen xs)) =
            map c (takeWhile (\<lambda>k. k \<noteq> m) (first_seen xs))"
    by (simp add: takeWhile_map m c_def comp_def)
  have 1: "\<forall>y \<in> set xs. count_list xs y \<le> count_list xs m"
    using ge by (simp add: m c_def set_first_seen)
  have "\<forall>y \<in> set (takeWhile (\<lambda>k. k \<noteq> m) (first_seen xs)). count_list xs y < count_list xs m"
    using before unfolding tw by (simp add: m c_def)
  then have 2: "\<forall>y \<in> set (takeWhile (\<lambda>k. k \<noteq> m) xs). count_list xs y < count_list xs m"
    by (simp add: takeWhile_first_seen)
  have "most_frequent_first xs m"
    using m(1) 1 2 by (simp add: most_frequent_first_def)
  moreover have "fst r = m" by (simp add: m c_def)
  ultimately show ?thesis using mc by blast
qed

lemma get_frequency_bias_find:
  "get_frequency_bias d =
     List.find (\<lambda>m. frequency_threshold d \<le>
                  of_nat (count_list (move_history d) m) / of_nat (length (move_history d)))
       (move_history d)"
proof (cases "move_history d = []")
  case True
  then show ?thesis by (simp add: get_frequency_bias_def)
next
  case False
  then show ?thesis
    by (simp add: get_frequency_bias_def Counter_eq find_map_fst find_first_seen
        option.map_comp comp_def option.map_ident)
qed

lemma find_Some_takeWhile:
  "List.find P xs = Some x \<longleftrightarrow>
     x \<in> set xs \<and> P x \<and> (\<forall>y \<in> set (takeWhile (\<lambda>y. y \<noteq> x) xs). \<not> P y)"
proof (induction xs)
  case Nil
  show ?case by simp
next
  case (Cons a xs)
  show ?case
  proof (cases "P a")
    case True
    then show ?thesis by (cases "a = x") auto
  next
    case False
    then show ?thesis using Cons by (cases "a = x") auto
  qed
qed

lemma find_in_set: "List.find P xs = Some x \<Longrightarrow> x \<in> set xs"
  by (simp add: find_Some_takeWhile)

lemma MOVES_nonempty_names: "m \<in> set MOVES \<Longrightarrow> m \<noteq> []"
  by (auto simp: MOVES_def)

lemma MOVES_cases:
  "m \<in> set MOVES \<longleftrightarrow>
     m = ''rock'' \<or> m = ''paper'' \<or> m = ''scissors'' \<or> m = ''lizard'' \<or> m = ''spock''"
  by (auto simp: MOVES_def)

lemma WINS_AGAINST_simps:
  "WINS_AGAINST ''rock'' = Some [''scissors'', ''lizard'']"
  "WINS_AGAINST ''paper'' = Some [''rock'', ''spock'']"
  "WINS_AGAINST ''scissors'' = Some [''paper'', ''lizard'']"
  "WINS_AGAINST ''lizard'' = Some [''paper'', ''spock'']"
  "WINS_AGAINST ''spock'' = Some [''rock'', ''scissors'']"
  by (simp_all add: WINS_AGAINST_def)

lemma WINS_AGAINST_dom: "WINS_AGAINST a = Some beaten \<Longrightarrow> a \<in> set MOVES"
  by (auto simp: WINS_AGAINST_def MOVES_def split: if_splits)

lemma WINS_AGAINST_closed: "WINS_AGAINST a = Some beaten \<Longrightarrow> set beaten \<subseteq> set MOVES"
  by (auto simp: WINS_AGAINST_def MOVES_def split: if_splits)

lemma beats_moves: "beats a b \<Longrightarrow> a \<in> set MOVES \<and> b \<in> set MOVES"
  using WINS_AGAINST_dom WINS_AGAINST_closed
  by (fastforce simp: beats_def split: option.splits)

lemma beats_exactly_one:
  "a \<in> set MOVES \<Longrightarrow> b \<in> set MOVES \<Longrightarrow> a \<noteq> b \<Longrightarrow> beats a b \<longleftrightarrow> \<not> beats b a"
  unfolding MOVES_cases by (elim disjE) (simp_all add: beats_def WINS_AGAINST_simps)

lemma beats_irrefl: "\<not> beats a a"
proof
  assume "beats a a"
  then have "a \<in> set MOVES" by (simp add: beats_moves)
  with \<open>beats a a\<close> show False
    unfolding MOVES_cases by (elim disjE) (simp_all add: beats_def WINS_AGAINST_simps)
qed

lemma get_result_win_iff: "get_result a b = Inr 1 \<longleftrightarrow> beats a b"
proof (cases "a = b")
  case True
  then show ?thesis using beats_irrefl by (simp add: get_result_def)
next
  case False
  then show ?thesis by (simp add: get_result_def beats_def split: option.splits)
qed

lemma possible_counters_simps:
  "possible_counters ''rock'' = Inr [''paper'', ''spock'']"
  "possible_counters ''paper'' = Inr [''scissors'', ''lizard'']"
  "possible_counters ''scissors'' = Inr [''rock'', ''spock'']"
  "possible_counters ''lizard'' = Inr [''rock'', ''scissors'']"
  "possible_counters ''spock'' = Inr [''paper'', ''lizard'']"
  by (simp_all add: possible_counters_def MOVES_def WINS_AGAINST_simps)

lemma possible_counters_two:
  assumes "m \<in> set MOVES"
  shows "\<exists>c1 c2. possible_counters m = Inr [c1, c2] \<and> c1 \<noteq> c2 \<and>
           c1 \<in> set MOVES \<and> c2 \<in> set MOVES \<and> beats c1 m \<and> beats c2 m"
  using assms unfolding MOVES_cases
  by (elim disjE) (simp_all add: possible_counters_simps beats_def WINS_AGAINST_simps MOVES_def)

lemma random_choice_two:
  "random_choice r [c1, c2] = Inr c1 \<or> random_choice r [c1, c2] = Inr c2"
proof -
  have len: "length [c1, c2] = 2" by simp
  have "r mod 2 = 0 \<or> r mod 2 = 1" by arith
  then show ?thesis unfolding random_choice_def len by (elim disjE) simp_all
qed

lemma get_counter_move_valid:
  assumes "m \<in> set MOVES"
  shows "\<exists>c. get_counter_move r m = Inr c \<and> c \<in> set MOVES \<and> get_result c m = Inr 1"
proof -
  from possible_counters_two [OF assms] obtain c1 c2 where
    pc: "possible_counters m = Inr [c1, c2]" and
    c: "c1 \<in> set MOVES" "c2 \<in> set MOVES" "beats c1 m" "beats c2 m"
    by blast
  have "get_counter_move r m = random_choice r [c1, c2]"
    by (simp add: get_counter_move_def pc)
  with random_choice_two [of r c1 c2] c show ?thesis
    by (auto simp: get_result_win_iff)
qed

lemma random_choice_MOVES: "\<exists>m. random_choice r MOVES = Inr m \<and> m \<in> set MOVES"
proof -
  have "MOVES \<noteq> []" by (simp add: MOVES_def)
  moreover have "r mod length MOVES < length MOVES" by (simp add: MOVES_def)
  ultimately show ?thesis by (simp add: random_choice_def)
qed

lemma pattern_occurrences_subset: "set (pattern_occurrences h w recent) \<subseteq> set h"
  by (auto simp: pattern_occurrences_def)

lemma most_frequent_first_mem: "most_frequent_first xs m \<Longrightarrow> m \<in> set xs"
  by (simp add: most_frequent_first_def)

lemma get_pattern_prediction_cases [consumes 0, case_names short hit miss_none miss_some]:
  fixes d :: PatternDetector
  defines "h \<equiv> move_history d" and "w \<equiv> window_size d"
  defines "key \<equiv> concat (py_last_n h w)"
  defines "occ \<equiv> pattern_occurrences h w (py_last_n h w)"
  obtains
    "length h < w" "get_pattern_prediction d = (Inr None, d)"
  | v where "w \<le> length h" "pattern_cache d key = Some v"
      "get_pattern_prediction d = (Inr (Some v), d)"
  | "w \<le> length h" "pattern_cache d key = None" "occ = []"
      "get_pattern_prediction d = (Inr None, d)"
  | m where "w \<le> length h" "pattern_cache d key = None" "occ \<noteq> []"
      "most_frequent_first occ m"
      "get_pattern_prediction d =
         (Inr (Some m), d\<lparr>pattern_cache := (pattern_cache d)(key \<mapsto> m)\<rparr>)"
proof (cases "length h < w")
  case True
  then have "get_pattern_prediction d = (Inr None, d)"
    by (simp add: get_pattern_prediction_def h_def w_def)
  with True show ?thesis using that(1) by blast
next
  case False
  then have len: "w \<le> length h" by simp
  show ?thesis
  proof (cases "pattern_cache d key")
    case (Some v)
    with False have "get_pattern_prediction d = (Inr (Some v), d)"
      by (simp add: get_pattern_prediction_def h_def w_def key_def Let_def)
    with len Some show ?thesis using that(2) by blast
  next
    case None
    show ?thesis
    proof (cases "occ = []")
      case True
      with False None have "get_pattern_prediction d = (Inr None, d)"
        by (simp add: get_pattern_prediction_def h_def w_def key_def occ_def Let_def)
      with len None True show ?thesis using that(3) by blast
    next
      case nonempty: False
      from most_common_move_first [OF nonempty] obtain m where
        m: "most_common_move occ = Inr m" "most_frequent_first occ m" by blast
      with False None nonempty have
        "get_pattern_prediction d =
           (Inr (Some m), d\<lparr>pattern_cache := (pattern_cache d)(key \<mapsto> m)\<rparr>)"
        by (simp add: get_pattern_prediction_def h_def w_def key_def occ_def Let_def)
      with len None nonempty m(2) show ?thesis using that(4) by blast
    qed
  qed
qed

lemma get_pattern_prediction_frame:
  "\<exists>p c. get_pattern_prediction d = (Inr p, d\<lparr>pattern_cache := c\<rparr>) \<and>
     (\<forall>k v. pattern_cache d k = Some v \<longrightarrow> c k = Some v) \<and>
     (\<forall>m. p = Some m \<longrightarrow> m \<in> set (move_history d) \<or> (\<exists>k. pattern_cache d k = Some m))"
proof (cases rule: get_pattern_prediction_cases [of d])
  case short
  then show ?thesis by (intro exI [of _ None] exI [of _ "pattern_cache d"]) simp
next
  case (hit v)
  then show ?thesis by (intro exI [of _ "Some v"] exI [of _ "pattern_cache d"]) auto
next
  case miss_none
  then show ?thesis by (intro exI [of _ None] exI [of _ "pattern_cache d"]) simp
next
  case (miss_some m)
  from miss_some(4) have "m \<in> set (move_history d)"
    using pattern_occurrences_subset [of "move_history d" "window_size d"]
      most_frequent_first_mem [of _ m] by blast
  with miss_some(2,5) show ?thesis
    by (intro exI [of _ "Some m"]
        exI [of _ "(pattern_cache d)(concat (py_last_n (move_history d) (window_size d)) \<mapsto> m)"])
      auto
qed

lemma get_frequency_bias_cache [simp]:
  "get_frequency_bias (d\<lparr>pattern_cache := c\<rparr>) = get_frequency_bias d"
  by (simp add: get_frequency_bias_def)

lemma get_frequency_bias_mem: "get_frequency_bias d = Some m \<Longrightarrow> m \<in> set (move_history d)"
  by (simp add: get_frequency_bias_find find_in_set)

lemma snd_get_ai_move:
  "snd (get_ai_move r g) =
     g\<lparr>pattern_detector := snd (get_pattern_prediction (pattern_detector g))\<rparr>"
  by (simp add: get_ai_move_def Let_def split: prod.splits sum.splits)

lemma py_last_n_subset: "set (py_last_n xs n) \<subseteq> set xs"
  by (auto simp: py_last_n_def dest: in_set_dropD)

lemma py_last_n_nonempty: "xs \<noteq> [] \<Longrightarrow> 0 < n \<Longrightarrow> py_last_n xs n \<noteq> []"
  by (cases xs) (auto simp: py_last_n_def)

text \<open>The move of \<open>get_ai_move\<close> in a game that holds moves of the game only, by the
  predictions of the tiers.\<close>

lemma fst_get_ai_move:
  assumes "valid_moves g"
  shows "fst (get_ai_move r g) =
     (case fst (get_pattern_prediction (pattern_detector g)) of
        Inl e \<Rightarrow> Inl e
      | Inr (Some p) \<Rightarrow> get_counter_move r p
      | Inr None \<Rightarrow>
          (case get_frequency_bias (pattern_detector g) of
             Some f \<Rightarrow> get_counter_move r f
           | None \<Rightarrow>
               if opponent_history (state g) \<noteq> [] then
                 (case most_common_move (py_last_n (opponent_history (state g)) 5) of
                    Inl e \<Rightarrow> Inl e
                  | Inr m \<Rightarrow> get_counter_move r m)
               else random_choice r MOVES))"
proof -
  let ?d = "pattern_detector g"
  from get_pattern_prediction_frame [of ?d] obtain p c where
    gpp: "get_pattern_prediction ?d = (Inr p, ?d\<lparr>pattern_cache := c\<rparr>)" and
    mem: "\<forall>m. p = Some m \<longrightarrow> m \<in> set (move_history ?d) \<or> (\<exists>k. pattern_cache ?d k = Some m)"
    by blast
  have p: "truthy p \<longleftrightarrow> p \<noteq> None"
  proof (cases p)
    case None
    then show ?thesis by simp
  next
    case (Some m)
    with mem assms have "m \<in> set MOVES"
      by (auto simp: valid_moves_def valid_detector_def)
    with Some show ?thesis by (simp add: MOVES_nonempty_names)
  qed
  have f: "truthy (get_frequency_bias ?d) \<longleftrightarrow> get_frequency_bias ?d \<noteq> None"
  proof (cases "get_frequency_bias ?d")
    case None
    then show ?thesis by simp
  next
    case (Some m)
    with assms have "m \<in> set MOVES"
      using get_frequency_bias_mem [of ?d m] by (auto simp: valid_moves_def valid_detector_def)
    with Some show ?thesis by (simp add: MOVES_nonempty_names)
  qed
  show ?thesis
    using p f by (auto simp: get_ai_move_def gpp Let_def split: option.splits sum.splits)
qed

lemma py_last_n_drop: "0 < n \<Longrightarrow> py_last_n xs n = drop (length xs - n) xs"
  by (simp add: py_last_n_def)

lemma pattern_occurrences_followers:
  assumes "0 < w"
  shows "pattern_occurrences h w (py_last_n h w) = followers h w"
proof -
  let ?P = "\<lambda>i. take w (drop i h) = drop (length h - w) h \<and> i + w < length h"
  let ?Q = "\<lambda>i. i \<noteq> length h - w \<and> take w (drop i h) = drop (length h - w) h \<and> i + w < length h"
  have split: "[0..<length h] = [0..<length h - w] @ [length h - w..<length h]"
    by (metis diff_le_self le0 upt_add_eq_append le_add_diff_inverse)
  have tail: "filter ?Q [length h - w..<length h] = []"
    by (auto simp: filter_empty_conv)
  have head: "filter ?Q [0..<length h - w] = filter ?P [0..<length h - w]"
    by (rule filter_cong) auto
  show ?thesis
    unfolding pattern_occurrences_def followers_def py_last_n_drop [OF assms]
    by (subst split) (simp only: filter_append tail head append_Nil2)
qed

lemma list_index_mem:
  "x \<in> set xs \<Longrightarrow> \<exists>i. list_index xs x = Inr i \<and> i < length xs \<and> xs ! i = x"
  by (induction xs) auto

lemma list_index_MOVES: "k < 5 \<Longrightarrow> list_index MOVES (MOVES ! k) = Inr k"
proof -
  assume "k < 5"
  then have "k = 0 \<or> k = 1 \<or> k = 2 \<or> k = 3 \<or> k = 4" by arith
  then show ?thesis by (elim disjE) (simp_all add: MOVES_def)
qed

lemma MOVES_length: "length MOVES = 5"
  by (simp add: MOVES_def)

lemma py_index_mem: "py_index xs i = Inr x \<Longrightarrow> x \<in> set xs"
  by (auto simp: py_index_def split: if_splits)

lemma py_index_nonneg:
  "0 \<le> i \<Longrightarrow> i < int (length xs) \<Longrightarrow> py_index xs i = Inr (xs ! nat i)"
  by (simp add: py_index_def)

lemma opponent_move_mem:
  assumes "valid_custom custom_moves"
    and "set (opponent_history (state g)) \<subseteq> set MOVES"
    and "opponent_move s custom_moves rn r g = Inr om"
  shows "om \<in> set MOVES"
proof -
  have rand: "random_choice r MOVES = Inr om \<Longrightarrow> om \<in> set MOVES"
    using random_choice_MOVES [of r] by auto
  have rep: "opponent_history (state g) \<noteq> [] \<Longrightarrow> last (opponent_history (state g)) \<in> set MOVES"
    using assms(2) last_in_set by blast
  have nth: "MOVES ! (i mod length MOVES) \<in> set MOVES" for i
    by (simp add: MOVES_length)
  have cust: "py_index ms rn = Inr om \<Longrightarrow> custom_moves = Some ms \<Longrightarrow> om \<in> set MOVES" for ms
    using assms(1) py_index_mem [of ms rn om] by (auto simp: valid_custom_def)
  have zero: "MOVES ! 0 \<in> set MOVES" by (simp add: MOVES_def)
  from assms(3) show ?thesis
    unfolding opponent_move_def
    using rand rep nth cust zero
    by (auto split: if_splits sum.splits option.splits)
qed

lemma opponent_move_total:
  assumes "valid_custom custom_moves"
    and "set (opponent_history (state g)) \<subseteq> set MOVES"
    and "0 \<le> rn"
  shows "\<exists>om. opponent_move s custom_moves rn r g = Inr om"
proof -
  obtain m where rand: "random_choice r MOVES = Inr m"
    using random_choice_MOVES [of r] by blast
  have cyc: "\<exists>i. list_index MOVES (last (opponent_history (state g))) = Inr i"
    if "opponent_history (state g) \<noteq> []"
  proof -
    from that assms(2) have "last (opponent_history (state g)) \<in> set MOVES"
      using last_in_set by blast
    from list_index_mem [OF this] show ?thesis by blast
  qed
  have cust: "\<exists>om. py_index ms rn = Inr om" if "rn < int (length ms)" for ms :: "string list"
    using that assms(3) by (simp add: py_index_nonneg)
  show ?thesis
    unfolding opponent_move_def
    using rand cyc cust
    by (auto split: option.splits sum.splits)
qed

lemma get_result_total:
  "a \<in> set MOVES \<Longrightarrow> \<exists>res. get_result a b = Inr res"
  unfolding MOVES_cases get_result_def
  by (elim disjE) (simp_all add: WINS_AGAINST_simps)

lemma add_move_fields [simp]:
  "window_size (add_move m d) = window_size d"
  "frequency_threshold (add_move m d) = frequency_threshold d"
  "pattern_cache (add_move m d) = pattern_cache d"
  "move_history (add_move m d) \<noteq> []"
  by (simp_all add: add_move_def)

lemma add_move_set: "set (move_history (add_move m d)) \<subseteq> insert m (set (move_history d))"
proof -
  have "set (tl (move_history d)) \<subseteq> set (move_history d)"
    by (cases "move_history d") auto
  then show ?thesis by (auto simp: add_move_def)
qed

lemma add_move_valid: "valid_detector d \<Longrightarrow> m \<in> set MOVES \<Longrightarrow> valid_detector (add_move m d)"
  using add_move_set [of m d] by (auto simp: valid_detector_def)

lemma get_pattern_prediction_fields [simp]:
  "move_history (snd (get_pattern_prediction d)) = move_history d"
  "window_size (snd (get_pattern_prediction d)) = window_size d"
  "frequency_threshold (snd (get_pattern_prediction d)) = frequency_threshold d"
  by (cases rule: get_pattern_prediction_cases [of d]; simp)+

lemma get_pattern_prediction_valid:
  assumes "valid_detector d"
  shows "valid_detector (snd (get_pattern_prediction d))"
proof (cases rule: get_pattern_prediction_cases [of d])
  case (miss_some m)
  from miss_some(4) have "m \<in> set (move_history d)"
    using pattern_occurrences_subset [of "move_history d" "window_size d"]
      most_frequent_first_mem [of _ m] by blast
  with assms miss_some(5) show ?thesis by (auto simp: valid_detector_def)
qed (use assms in simp_all)

lemma get_pattern_prediction_cache_mono:
  "pattern_cache d k = Some v \<Longrightarrow> pattern_cache (snd (get_pattern_prediction d)) k = Some v"
  using get_pattern_prediction_frame [of d] by auto

lemma get_ai_move_valid:
  assumes "valid_moves g"
  shows "\<exists>ai. fst (get_ai_move r g) = Inr ai \<and> ai \<in> set MOVES"
proof -
  let ?d = "pattern_detector g"
  let ?hist = "opponent_history (state g)"
  have counter: "\<exists>ai. get_counter_move r p = Inr ai \<and> ai \<in> set MOVES" if "p \<in> set MOVES" for p
    using get_counter_move_valid [OF that, of r] by blast
  from get_pattern_prediction_frame [of ?d] obtain t1 c where
    gpp: "get_pattern_prediction ?d = (Inr t1, ?d\<lparr>pattern_cache := c\<rparr>)" and
    mem: "\<forall>m. t1 = Some m \<longrightarrow> m \<in> set (move_history ?d) \<or> (\<exists>k. pattern_cache ?d k = Some m)"
    by blast
  show ?thesis
  proof (cases t1)
    case (Some p)
    with mem assms have "p \<in> set MOVES"
      by (auto simp: valid_moves_def valid_detector_def)
    from counter [OF this] Some show ?thesis
      by (simp add: fst_get_ai_move [OF assms] gpp)
  next
    case None
    show ?thesis
    proof (cases "get_frequency_bias ?d")
      case (Some f)
      with assms have "f \<in> set MOVES"
        using get_frequency_bias_mem [of ?d f] by (auto simp: valid_moves_def valid_detector_def)
      from counter [OF this] Some None show ?thesis
        by (simp add: fst_get_ai_move [OF assms] gpp)
    next
      case no_bias: None
      show ?thesis
      proof (cases "?hist = []")
        case True
        with None no_bias show ?thesis
          using random_choice_MOVES [of r] by (simp add: fst_get_ai_move [OF assms] gpp)
      next
        case False
        then have "py_last_n ?hist 5 \<noteq> []" by (simp add: py_last_n_nonempty)
        from most_common_move_first [OF this] obtain m where
          m: "most_common_move (py_last_n ?hist 5) = Inr m"
             "most_frequent_first (py_last_n ?hist 5) m"
          by blast
        from m(2) assms have "m \<in> set MOVES"
          using py_last_n_subset [of ?hist 5] most_frequent_first_mem [of _ m]
          by (auto simp: valid_moves_def)
        from counter [OF this] None no_bias False m(1) show ?thesis
          by (simp add: fst_get_ai_move [OF assms] gpp)
      qed
    qed
  qed
qed

lemma play_round_raised:
  "opponent_move s cm rn ro g = Inl e \<Longrightarrow> play_round s cm rn ro ra g = (Inl e, g)"
  by (simp add: play_round_def)

lemma play_round_played:
  assumes "valid_moves g"
    and "opponent_move s cm rn ro g = Inr om"
    and "om \<in> set MOVES"
  shows "\<exists>ai res g'.
     play_round s cm rn ro ra g = (Inr (ai, om, res), g') \<and>
     fst (get_ai_move ra (g\<lparr>pattern_detector := add_move om (pattern_detector g)\<rparr>)) = Inr ai \<and>
     get_result ai om = Inr res \<and> ai \<in> set MOVES \<and>
     pattern_detector g' = snd (get_pattern_prediction (add_move om (pattern_detector g))) \<and>
     opponent_history (state g') = opponent_history (state g) @ [om] \<and>
     player_history (state g') = player_history (state g) @ [ai] \<and>
     valid_moves g'"
proof -
  let ?g1 = "g\<lparr>pattern_detector := add_move om (pattern_detector g)\<rparr>"
  have v1: "valid_moves ?g1"
    using assms(1,3) by (simp add: valid_moves_def add_move_valid)
  from get_ai_move_valid [OF v1, of ra] obtain ai where
    ai: "fst (get_ai_move ra ?g1) = Inr ai" "ai \<in> set MOVES" by blast
  from get_result_total [OF ai(2), of om] obtain res where
    res: "get_result ai om = Inr res" by blast
  define g2 where "g2 = snd (get_ai_move ra ?g1)"
  have gam: "get_ai_move ra ?g1 = (Inr ai, g2)"
    using ai(1) by (simp add: g2_def prod_eq_iff)
  have g2: "g2 = ?g1\<lparr>pattern_detector := snd (get_pattern_prediction (add_move om (pattern_detector g)))\<rparr>"
    by (simp add: g2_def snd_get_ai_move)
  define g' where "g' = g2\<lparr>state := (state g2)
      \<lparr>opponent_history := opponent_history (state g2) @ [om],
       player_history := player_history (state g2) @ [ai]\<rparr>\<rparr>"
  have pr: "play_round s cm rn ro ra g = (Inr (ai, om, res), g')"
    by (simp add: play_round_def assms(2) gam res g'_def Let_def)
  have v2: "valid_detector (pattern_detector g2)"
    using v1 by (simp add: g2 valid_moves_def get_pattern_prediction_valid)
  have "valid_moves g'"
    using v2 assms(1,3) by (simp add: g'_def g2 valid_moves_def)
  with pr ai res show ?thesis
    by (intro exI [of _ ai] exI [of _ res] exI [of _ g']) (simp add: g'_def g2)
qed

lemma reachable_invariant:
  assumes "reachable g"
  shows "valid_moves g \<and> window_size (pattern_detector g) = 3 \<and>
         frequency_threshold (pattern_detector g) = 3 / 10 \<and>
         (opponent_history (state g) = [] \<longrightarrow> move_history (pattern_detector g) = [])"
  using assms
proof (induction rule: reachable.induct)
  case start
  show ?case
    by (simp add: new_game_def new_detector_def valid_moves_def valid_detector_def)
next
  case (round g custom_moves opponent_strategy round_number ro ra)
  show ?case
  proof (cases "opponent_move opponent_strategy custom_moves round_number ro g")
    case (Inl e)
    then show ?thesis using round.IH by (simp add: play_round_raised)
  next
    case (Inr om)
    from round.IH have v: "valid_moves g" by simp
    then have "om \<in> set MOVES"
      using opponent_move_mem [OF round.hyps(2) _ Inr] by (simp add: valid_moves_def)
    from play_round_played [OF v Inr this, of ra] round.IH show ?thesis by auto
  qed
qed

lemma get_pattern_prediction_truthy:
  assumes "valid_detector d" and "fst (get_pattern_prediction d) = Inr (Some p)"
  shows "p \<in> set MOVES"
  using get_pattern_prediction_frame [of d] assms by (auto simp: valid_detector_def)

lemma get_pattern_prediction_total: "\<exists>t. fst (get_pattern_prediction d) = Inr t"
  using get_pattern_prediction_frame [of d] by auto

lemma ai_tier_eq:
  assumes "valid_moves g"
  shows "ai_tier g =
     (case fst (get_pattern_prediction (pattern_detector g)) of
        Inl e \<Rightarrow> Pattern_match
      | Inr (Some p) \<Rightarrow> Pattern_match
      | Inr None \<Rightarrow>
          (case get_frequency_bias (pattern_detector g) of
             Some f \<Rightarrow> Frequency_bias
           | None \<Rightarrow>
               if opponent_history (state g) \<noteq> [] then Recent_majority else Random_fallback))"
proof -
  let ?d = "pattern_detector g"
  from assms have vd: "valid_detector ?d" by (simp add: valid_moves_def)
  obtain t d' where gpp: "get_pattern_prediction ?d = (Inr t, d')"
    using get_pattern_prediction_frame [of ?d] by blast
  have d': "get_frequency_bias d' = get_frequency_bias ?d"
    using get_pattern_prediction_frame [of ?d] gpp by auto
  have t: "truthy (Some p)" if "t = Some p" for p
    using get_pattern_prediction_truthy [OF vd, of p] that gpp
    by (simp add: MOVES_nonempty_names)
  have f: "truthy (Some f)" if "get_frequency_bias ?d = Some f" for f
  proof -
    have "f \<in> set MOVES"
      using get_frequency_bias_mem [OF that] vd by (auto simp: valid_detector_def)
    then show ?thesis by (simp add: MOVES_nonempty_names)
  qed
  show ?thesis
    using t f by (auto simp: ai_tier_def gpp d' split: option.splits)
qed

lemma get_ai_move_predicted:
  assumes "valid_moves g" and "ai_tier g \<noteq> Random_fallback"
  shows "\<exists>p. p \<in> set MOVES \<and>
           predicted_move (pattern_detector g) (opponent_history (state g)) p \<and>
           (\<forall>r. fst (get_ai_move r g) = get_counter_move r p)"
proof -
  let ?d = "pattern_detector g"
  let ?hist = "opponent_history (state g)"
  from assms(1) have vd: "valid_detector ?d" and vh: "set ?hist \<subseteq> set MOVES"
    by (simp_all add: valid_moves_def)
  obtain t where t: "fst (get_pattern_prediction ?d) = Inr t"
    using get_pattern_prediction_total by blast
  show ?thesis
  proof (cases t)
    case (Some p)
    with t have "p \<in> set MOVES" using get_pattern_prediction_truthy [OF vd] by simp
    with t Some show ?thesis
      by (auto simp: fst_get_ai_move [OF assms(1)] predicted_move_def)
  next
    case None
    show ?thesis
    proof (cases "get_frequency_bias ?d")
      case (Some f)
      then have "f \<in> set MOVES"
        using get_frequency_bias_mem [of ?d f] vd by (auto simp: valid_detector_def)
      with t None Some show ?thesis
        by (auto simp: fst_get_ai_move [OF assms(1)] predicted_move_def)
    next
      case no_bias: None
      with assms t None have ne: "?hist \<noteq> []"
        by (auto simp: ai_tier_eq split: if_splits)
      then have "py_last_n ?hist 5 \<noteq> []" by (simp add: py_last_n_nonempty)
      from most_common_move_first [OF this] obtain m where
        m: "most_common_move (py_last_n ?hist 5) = Inr m"
           "most_frequent_first (py_last_n ?hist 5) m"
        by blast
      from m(2) vh have mem: "m \<in> set MOVES"
        using py_last_n_subset [of ?hist 5] most_frequent_first_mem [of _ m] by auto
      from m(2) have "most_frequent_first (drop (length ?hist - 5) ?hist) m"
        by (simp add: py_last_n_drop)
      with t None no_bias ne have "predicted_move ?d ?hist m"
        by (simp add: predicted_move_def)
      moreover have "\<forall>r. fst (get_ai_move r g) = get_counter_move r m"
        using t None no_bias ne m(1) by (simp add: fst_get_ai_move [OF assms(1)])
      ultimately show ?thesis using mem by blast
    qed
  qed
qed

lemma get_frequency_bias_short:
  assumes "frequency_threshold d = 3 / 10"
    and "move_history d \<noteq> []"
    and "length (move_history d) \<le> 3"
  shows "get_frequency_bias d = Some (hd (move_history d))"
proof -
  let ?h = "move_history d"
  obtain x xs where h: "?h = x # xs" using assms(2) by (cases ?h) auto
  let ?c = "count_list ?h x"
  have c: "1 \<le> ?c" by (simp add: h)
  have n: "0 < length ?h" using assms(2) by simp
  have "(3 / 10 :: rat) * of_nat (length ?h) \<le> 3 / 10 * 3"
    using assms(3) by (simp del: of_nat_Suc)
  also have "\<dots> \<le> 1" by simp
  also have "\<dots> \<le> of_nat ?c" using c by simp
  finally have "(3 / 10 :: rat) \<le> of_nat ?c / of_nat (length ?h)"
    using n by (simp add: pos_le_divide_eq)
  then have "frequency_threshold d \<le> of_nat (count_list ?h (hd ?h)) / of_nat (length ?h)"
    by (simp add: assms(1) h)
  then show ?thesis
    unfolding get_frequency_bias_find by (subst (3) h) (simp add: h)
qed

lemma first_window:
  fixes om :: string
  defines "d1 \<equiv> add_move om new_detector"
  shows "move_history d1 = [om]"
    and "fst (get_pattern_prediction d1) = Inr None"
    and "get_frequency_bias d1 = Some om"
proof -
  show h: "move_history d1 = [om]" by (simp add: d1_def add_move_def new_detector_def)
  have w: "window_size d1 = 3" by (simp add: d1_def new_detector_def)
  show "fst (get_pattern_prediction d1) = Inr None"
    by (simp add: get_pattern_prediction_def h w)
  have "frequency_threshold d1 = 3 / 10" by (simp add: d1_def new_detector_def)
  from get_frequency_bias_short [OF this] show "get_frequency_bias d1 = Some om"
    by (simp add: h)
qed

lemma new_game_valid: "valid_moves new_game"
  by (simp add: new_game_def new_detector_def valid_moves_def valid_detector_def)

lemma play_round_detector:
  "pattern_detector (snd (play_round s cm rn ro ra g)) =
     (case opponent_move s cm rn ro g of
        Inl e \<Rightarrow> pattern_detector g
      | Inr om \<Rightarrow> snd (get_pattern_prediction (add_move om (pattern_detector g))))"
proof (cases "opponent_move s cm rn ro g")
  case (Inl e)
  then show ?thesis by (simp add: play_round_raised)
next
  case (Inr om)
  let ?g1 = "g\<lparr>pattern_detector := add_move om (pattern_detector g)\<rparr>"
  obtain x g2 where gam: "get_ai_move ra ?g1 = (x, g2)" by (cases "get_ai_move ra ?g1")
  then have "g2 = snd (get_ai_move ra ?g1)" by simp
  then have g2: "pattern_detector g2 = snd (get_pattern_prediction (add_move om (pattern_detector g)))"
    by (simp add: snd_get_ai_move)
  show ?thesis
    using g2 by (simp add: play_round_def Inr gam Let_def split: sum.splits)
qed

lemma play_round_cache_mono:
  assumes "pattern_cache (pattern_detector g) k = Some v"
  shows "pattern_cache (pattern_detector (snd (play_round s cm rn ro ra g))) k = Some v"
proof (cases "opponent_move s cm rn ro g")
  case (Inl e)
  with assms show ?thesis by (simp add: play_round_detector)
next
  case (Inr om)
  from assms have "pattern_cache (add_move om (pattern_detector g)) k = Some v" by simp
  from get_pattern_prediction_cache_mono [OF this] Inr show ?thesis
    by (simp add: play_round_detector)
qed

lemma evolves_cache_mono:
  assumes "evolves g g'" and "pattern_cache (pattern_detector g) k = Some v"
  shows "pattern_cache (pattern_detector g') k = Some v"
  using assms
proof (induction rule: evolves.induct)
  case (same g)
  then show ?case by simp
next
  case (played g g' opponent_strategy custom_moves round_number ro ra)
  then show ?case by (simp add: play_round_cache_mono)
next
  case (asked g g' r)
  then show ?case by (simp add: snd_get_ai_move get_pattern_prediction_cache_mono)
next
  case (predicted g g')
  then show ?case by (simp add: get_pattern_prediction_cache_mono)
next
  case (added g g' move)
  then show ?case by simp
qed

lemma get_pattern_prediction_hit:
  assumes "window_size d \<le> length (move_history d)"
    and "pattern_cache d (concat (py_last_n (move_history d) (window_size d))) = Some v"
  shows "get_pattern_prediction d = (Inr (Some v), d)"
  using assms by (simp add: get_pattern_prediction_def Let_def)

lemma cycling_next:
  assumes "k < 5"
    and "opponent_history (state g) \<noteq> []"
    and "last (opponent_history (state g)) = MOVES ! k"
  shows "opponent_move ''cycling'' cm rn ro g = Inr (MOVES ! (Suc k mod 5))"
  using assms by (simp add: opponent_move_def list_index_MOVES MOVES_length)

lemma cycling_first:
  "opponent_history (state g) = [] \<Longrightarrow> opponent_move ''cycling'' cm rn ro g = Inr (MOVES ! 0)"
  by (simp add: opponent_move_def)

lemma play_rounds_cycling:
  assumes "valid_moves g" and "k < 5"
    and "opponent_history (state g) = [] \<and> k = 0 \<or>
         opponent_history (state g) \<noteq> [] \<and>
           last (opponent_history (state g)) = MOVES ! ((k + 4) mod 5)"
  shows "\<exists>rounds g'. play_rounds ''cycling'' cm ro ra i n g = Inr (rounds, g') \<and>
           map (\<lambda>(ai, om, res). om) rounds = map (\<lambda>j. MOVES ! ((k + j) mod 5)) [0..<n]"
  using assms
proof (induction n arbitrary: g k i)
  case 0
  show ?case by simp
next
  case (Suc n)
  have om: "opponent_move ''cycling'' cm (int i) (ro i) g = Inr (MOVES ! k)"
  proof (cases "opponent_history (state g) = []")
    case True
    with Suc.prems(3) show ?thesis by (simp add: cycling_first)
  next
    case False
    with Suc.prems(3) have l: "last (opponent_history (state g)) = MOVES ! ((k + 4) mod 5)"
      by simp
    have lt: "(k + 4) mod 5 < 5" by simp
    have w: "Suc ((k + 4) mod 5) mod 5 = k" using Suc.prems(2) by presburger
    from cycling_next [OF lt False l, of cm "int i" "ro i"] show ?thesis
      unfolding w .
  qed
  have mem: "MOVES ! k \<in> set MOVES" using Suc.prems(2) by (simp add: MOVES_length)
  from play_round_played [OF Suc.prems(1) om mem, of "ra i"] obtain ai res g1 where
    pr: "play_round ''cycling'' cm (int i) (ro i) (ra i) g = (Inr (ai, MOVES ! k, res), g1)"
    and h1: "opponent_history (state g1) = opponent_history (state g) @ [MOVES ! k]"
    and v1: "valid_moves g1"
    by blast
  let ?k = "Suc k mod 5"
  have k': "?k < 5" by simp
  have "(?k + 4) mod 5 = k" using Suc.prems(2) by presburger
  then have pos: "opponent_history (state g1) = [] \<and> ?k = 0 \<or>
      opponent_history (state g1) \<noteq> [] \<and>
        last (opponent_history (state g1)) = MOVES ! ((?k + 4) mod 5)"
    by (simp add: h1)
  from Suc.IH [OF v1 k' pos, of "Suc i"] obtain rounds g' where
    rest: "play_rounds ''cycling'' cm ro ra (Suc i) n g1 = Inr (rounds, g')"
      "map (\<lambda>(ai, om, res). om) rounds = map (\<lambda>j. MOVES ! ((?k + j) mod 5)) [0..<n]"
    by blast
  have idx: "(?k + j) mod 5 = (k + Suc j) mod 5" for j by presburger
  have "map (\<lambda>j. MOVES ! ((k + j) mod 5)) [0..<Suc n] =
      MOVES ! k # map (\<lambda>j. MOVES ! ((?k + j) mod 5)) [0..<n]"
    using Suc.prems(2) by (simp add: map_upt_Suc idx del: upt_Suc)
  with pr rest show ?case by simp
qed

section \<open>The properties of the specification\<close>

text \<open>
  C1. In a game that records moves of the game only, \<open>get_ai_move\<close> follows the priority
  chain. The pattern step raises nothing. If it predicts \<open>p\<close>, the move is a counter-move
  of \<open>p\<close>, whatever the frequency bias and the history are. If it predicts nothing and
  the frequency bias predicts \<open>f\<close>, the move is a counter-move of \<open>f\<close>. If both predict
  nothing and the opponent's history is not empty, the move is a counter-move of the most
  frequent of the last five moves of the history, ties broken by first occurrence. Only
  when both predict nothing and the history is empty is the move drawn from all of
  \<open>MOVES\<close>. \<open>ai_tier\<close> names the tier accordingly.
\<close>

theorem get_ai_move_priority_chain:
  assumes "valid_moves g"
  shows "\<exists>tier1.
     fst (get_pattern_prediction (pattern_detector g)) = Inr tier1 \<and>
     (\<forall>p. tier1 = Some p \<longrightarrow>
        fst (get_ai_move r g) = get_counter_move r p \<and> ai_tier g = Pattern_match) \<and>
     (\<forall>f. tier1 = None \<and> get_frequency_bias (pattern_detector g) = Some f \<longrightarrow>
        fst (get_ai_move r g) = get_counter_move r f \<and> ai_tier g = Frequency_bias) \<and>
     (tier1 = None \<and> get_frequency_bias (pattern_detector g) = None \<and>
      opponent_history (state g) \<noteq> [] \<longrightarrow>
        (\<exists>m. most_frequent_first
               (drop (length (opponent_history (state g)) - 5) (opponent_history (state g))) m \<and>
             fst (get_ai_move r g) = get_counter_move r m) \<and>
        ai_tier g = Recent_majority) \<and>
     (tier1 = None \<and> get_frequency_bias (pattern_detector g) = None \<and>
      opponent_history (state g) = [] \<longrightarrow>
        fst (get_ai_move r g) = random_choice r MOVES \<and> ai_tier g = Random_fallback)"
proof -
  let ?d = "pattern_detector g"
  let ?hist = "opponent_history (state g)"
  from get_pattern_prediction_frame [of ?d] obtain t1 c where
    gpp: "get_pattern_prediction ?d = (Inr t1, ?d\<lparr>pattern_cache := c\<rparr>)" and
    mem: "\<forall>m. t1 = Some m \<longrightarrow> m \<in> set (move_history ?d) \<or> (\<exists>k. pattern_cache ?d k = Some m)"
    by blast
  have t1: "truthy (Some p)" if "t1 = Some p" for p
  proof -
    from that mem assms have "p \<in> set MOVES"
      by (auto simp: valid_moves_def valid_detector_def)
    then show ?thesis by (simp add: MOVES_nonempty_names)
  qed
  have t2: "truthy (Some f)" if "get_frequency_bias ?d = Some f" for f
  proof -
    from that assms have "f \<in> set MOVES"
      using get_frequency_bias_mem [of ?d f] by (auto simp: valid_moves_def valid_detector_def)
    then show ?thesis by (simp add: MOVES_nonempty_names)
  qed
  have move: "fst (get_ai_move r g) =
     (case t1 of
        Some p \<Rightarrow> get_counter_move r p
      | None \<Rightarrow>
          (case get_frequency_bias ?d of
             Some f \<Rightarrow> get_counter_move r f
           | None \<Rightarrow>
               if ?hist \<noteq> [] then
                 (case most_common_move (py_last_n ?hist 5) of
                    Inl e \<Rightarrow> Inl e
                  | Inr m \<Rightarrow> get_counter_move r m)
               else random_choice r MOVES))"
    using fst_get_ai_move [OF assms, of r] by (simp add: gpp)
  have tier: "ai_tier g =
     (case t1 of
        Some p \<Rightarrow> Pattern_match
      | None \<Rightarrow>
          (case get_frequency_bias ?d of
             Some f \<Rightarrow> Frequency_bias
           | None \<Rightarrow> if ?hist \<noteq> [] then Recent_majority else Random_fallback))"
    using t1 t2 by (auto simp: ai_tier_def gpp split: option.splits)
  have third: "\<exists>m. most_frequent_first (drop (length ?hist - 5) ?hist) m \<and>
      most_common_move (py_last_n ?hist 5) = Inr m" if "?hist \<noteq> []"
  proof -
    have "py_last_n ?hist 5 \<noteq> []" using that by (simp add: py_last_n_nonempty)
    from most_common_move_first [OF this] show ?thesis
      by (auto simp: py_last_n_drop)
  qed
  have "fst (get_pattern_prediction ?d) = Inr t1" by (simp add: gpp)
  moreover have "\<forall>p. t1 = Some p \<longrightarrow>
      fst (get_ai_move r g) = get_counter_move r p \<and> ai_tier g = Pattern_match"
    by (simp add: move tier)
  moreover have "\<forall>f. t1 = None \<and> get_frequency_bias ?d = Some f \<longrightarrow>
      fst (get_ai_move r g) = get_counter_move r f \<and> ai_tier g = Frequency_bias"
    by (simp add: move tier)
  moreover have "t1 = None \<and> get_frequency_bias ?d = None \<and> ?hist \<noteq> [] \<longrightarrow>
      (\<exists>m. most_frequent_first (drop (length ?hist - 5) ?hist) m \<and>
           fst (get_ai_move r g) = get_counter_move r m) \<and>
      ai_tier g = Recent_majority"
    using third by (fastforce simp: move tier)
  moreover have "t1 = None \<and> get_frequency_bias ?d = None \<and> ?hist = [] \<longrightarrow>
      fst (get_ai_move r g) = random_choice r MOVES \<and> ai_tier g = Random_fallback"
    by (simp add: move tier)
  ultimately show ?thesis by blast
qed

theorem get_ai_move_priority_chain_witness:
  "valid_moves
     \<lparr>state = \<lparr>player_history = [''spock'', ''scissors'', ''rock''],
                opponent_history = [''rock'', ''paper'', ''scissors'']\<rparr>,
      pattern_detector = \<lparr>window_size = 3, frequency_threshold = 3 / 10,
        move_history = [''rock'', ''paper'', ''scissors'', ''lizard''],
        pattern_cache = Map.empty\<rparr>\<rparr> \<and>
   fst (get_pattern_prediction \<lparr>window_size = 3, frequency_threshold = 3 / 10,
        move_history = [''rock'', ''paper'', ''scissors'', ''lizard''],
        pattern_cache = Map.empty\<rparr>) = Inr None \<and>
   get_frequency_bias \<lparr>window_size = 3, frequency_threshold = 3 / 10,
        move_history = [''rock'', ''paper'', ''scissors'', ''lizard''],
        pattern_cache = Map.empty\<rparr> = None \<and>
   fst (get_ai_move 1
     \<lparr>state = \<lparr>player_history = [''spock'', ''scissors'', ''rock''],
                opponent_history = [''rock'', ''paper'', ''scissors'']\<rparr>,
      pattern_detector = \<lparr>window_size = 3, frequency_threshold = 3 / 10,
        move_history = [''rock'', ''paper'', ''scissors'', ''lizard''],
        pattern_cache = Map.empty\<rparr>\<rparr>) = Inr ''spock''"
proof -
  define d where "d = \<lparr>window_size = 3, frequency_threshold = 3 / 10,
        move_history = [''rock'', ''paper'', ''scissors'', ''lizard''],
        pattern_cache = (Map.empty :: string \<rightharpoonup> string)\<rparr>"
  define g where "g = \<lparr>state = \<lparr>player_history = [''spock'', ''scissors'', ''rock''],
                opponent_history = [''rock'', ''paper'', ''scissors'']\<rparr>,
      pattern_detector = d\<rparr>"
  have v: "valid_moves g"
    by (simp add: g_def d_def valid_moves_def valid_detector_def MOVES_def)
  have t1: "fst (get_pattern_prediction d) = Inr None"
    by (simp add: d_def get_pattern_prediction_def py_last_n_def pattern_occurrences_def)
  have t2: "get_frequency_bias d = None"
    by (simp add: d_def get_frequency_bias_find)
  have hist: "opponent_history (state g) = [''rock'', ''paper'', ''scissors'']"
    by (simp add: g_def)
  have pd: "pattern_detector g = d" by (simp add: g_def)
  from get_ai_move_priority_chain [OF v, of 1] t1 t2 obtain m where
    m: "most_frequent_first [''rock'', ''paper'', ''scissors''] m"
       "fst (get_ai_move 1 g) = get_counter_move 1 m"
    unfolding pd hist by auto
  have "most_frequent_first [''rock'', ''paper'', ''scissors''] ''rock''"
    by (simp add: most_frequent_first_def)
  with m(1) have "m = ''rock''" by (rule most_frequent_first_unique)
  with m(2) have "fst (get_ai_move 1 g) = Inr ''spock''"
    by (simp add: get_counter_move_def possible_counters_simps random_choice_def)
  with v t1 t2 show ?thesis unfolding g_def d_def by simp
qed

text \<open>
  C2. For a detector with a positive window size \<open>w\<close>: with fewer than \<open>w\<close> moves in the
  rolling window \<open>get_pattern_prediction\<close> predicts nothing. With at least \<open>w\<close> moves and no
  cache entry for the key of the last \<open>w\<close> moves, it collects the moves that follow the
  other occurrences of the last \<open>w\<close> moves in the window (\<open>followers\<close>); if there are none
  it predicts nothing and leaves the detector as it is, and otherwise it predicts the most
  frequent follower, ties broken by first occurrence, and stores it in the cache under
  that key.
\<close>

theorem pattern_prediction_scan:
  assumes "0 < window_size d"
  shows "(length (move_history d) < window_size d \<longrightarrow>
            get_pattern_prediction d = (Inr None, d)) \<and>
         (window_size d \<le> length (move_history d) \<and>
          pattern_cache d
            (concat (drop (length (move_history d) - window_size d) (move_history d))) = None \<longrightarrow>
            (followers (move_history d) (window_size d) = [] \<longrightarrow>
               get_pattern_prediction d = (Inr None, d)) \<and>
            (followers (move_history d) (window_size d) \<noteq> [] \<longrightarrow>
               (\<exists>p. most_frequent_first (followers (move_history d) (window_size d)) p \<and>
                  get_pattern_prediction d =
                    (Inr (Some p),
                     d\<lparr>pattern_cache := (pattern_cache d)
                        (concat (drop (length (move_history d) - window_size d) (move_history d))
                           \<mapsto> p)\<rparr>))))"
proof -
  have occ: "pattern_occurrences (move_history d) (window_size d)
               (py_last_n (move_history d) (window_size d)) =
             followers (move_history d) (window_size d)"
    by (rule pattern_occurrences_followers [OF assms])
  have key: "py_last_n (move_history d) (window_size d) =
             drop (length (move_history d) - window_size d) (move_history d)"
    by (rule py_last_n_drop [OF assms])
  show ?thesis
  proof (cases rule: get_pattern_prediction_cases [of d])
    case short
    then show ?thesis by simp
  next
    case (hit v)
    then show ?thesis unfolding key by simp
  next
    case miss_none
    then show ?thesis unfolding occ by simp
  next
    case (miss_some m)
    then show ?thesis unfolding occ unfolding key by auto
  qed
qed

theorem pattern_prediction_scan_witness:
  "0 < window_size \<lparr>window_size = 3, frequency_threshold = 3 / 10,
        move_history = [''rock'', ''paper'', ''scissors'', ''lizard'',
                        ''rock'', ''paper'', ''scissors'', ''spock'',
                        ''rock'', ''paper'', ''scissors''],
        pattern_cache = Map.empty\<rparr> \<and>
   followers [''rock'', ''paper'', ''scissors'', ''lizard'',
              ''rock'', ''paper'', ''scissors'', ''spock'',
              ''rock'', ''paper'', ''scissors''] 3 = [''lizard'', ''spock''] \<and>
   fst (get_pattern_prediction \<lparr>window_size = 3, frequency_threshold = 3 / 10,
        move_history = [''rock'', ''paper'', ''scissors'', ''lizard'',
                        ''rock'', ''paper'', ''scissors'', ''spock'',
                        ''rock'', ''paper'', ''scissors''],
        pattern_cache = Map.empty\<rparr>) = Inr (Some ''lizard'') \<and>
   pattern_cache (snd (get_pattern_prediction \<lparr>window_size = 3, frequency_threshold = 3 / 10,
        move_history = [''rock'', ''paper'', ''scissors'', ''lizard'',
                        ''rock'', ''paper'', ''scissors'', ''spock'',
                        ''rock'', ''paper'', ''scissors''],
        pattern_cache = Map.empty\<rparr>)) ''rockpaperscissors'' = Some ''lizard''"
proof -
  define h where "h = [''rock'', ''paper'', ''scissors'', ''lizard'',
                        ''rock'', ''paper'', ''scissors'', ''spock'',
                        ''rock'', ''paper'', ''scissors'']"
  define d where "d = \<lparr>window_size = 3, frequency_threshold = 3 / 10,
        move_history = h, pattern_cache = (Map.empty :: string \<rightharpoonup> string)\<rparr>"
  have w: "0 < window_size d" by (simp add: d_def)
  have mh: "move_history d = h" "window_size d = 3" by (simp_all add: d_def)
  have fs: "followers h 3 = [''lizard'', ''spock'']"
    unfolding h_def by code_simp
  have key: "concat (drop (length h - 3) h) = ''rockpaperscissors''"
    by (simp add: h_def)
  have pre: "window_size d \<le> length (move_history d) \<and>
      pattern_cache d
        (concat (drop (length (move_history d) - window_size d) (move_history d))) = None"
    by (simp add: d_def h_def)
  have ne: "followers (move_history d) (window_size d) \<noteq> []"
    by (simp add: mh fs)
  from pattern_prediction_scan [OF w] pre ne
  have "\<exists>p. most_frequent_first (followers (move_history d) (window_size d)) p \<and>
          get_pattern_prediction d =
            (Inr (Some p),
             d\<lparr>pattern_cache := (pattern_cache d)
                (concat (drop (length (move_history d) - window_size d) (move_history d))
                   \<mapsto> p)\<rparr>)"
    by blast
  then obtain p where
    p: "most_frequent_first [''lizard'', ''spock''] p"
       "get_pattern_prediction d =
          (Inr (Some p), d\<lparr>pattern_cache := (pattern_cache d)(''rockpaperscissors'' \<mapsto> p)\<rparr>)"
    unfolding mh fs key by blast
  have "most_frequent_first [''lizard'', ''spock''] ''lizard''"
    by (simp add: most_frequent_first_def)
  with p(1) have "p = ''lizard''" by (rule most_frequent_first_unique)
  with p(2) w fs show ?thesis unfolding d_def h_def by simp
qed

text \<open>
  C3 (as amended). In a rolling window of 10 moves in which rock occurs 4 times, with
  the default threshold 3/10, the frequency bias predicts rock exactly when every move
  that occurs before the first rock occurs fewer than 3 times in the window: the bias
  is the first move, in the order of first occurrence, whose share reaches the
  threshold. When moreover the pattern step predicts nothing in a game that records
  moves of the game only, \<open>get_ai_move\<close> answers with a counter-move of rock.
\<close>

theorem frequency_bias_rock:
  assumes "length (move_history d) = 10"
    and "count_list (move_history d) ''rock'' = 4"
    and "frequency_threshold d = 3 / 10"
  shows "(get_frequency_bias d = Some ''rock'' \<longleftrightarrow>
            (\<forall>m \<in> set (takeWhile (\<lambda>m. m \<noteq> ''rock'') (move_history d)).
               count_list (move_history d) m < 3)) \<and>
         (\<forall>g r. pattern_detector g = d \<and> valid_moves g \<and>
            fst (get_pattern_prediction d) = Inr None \<and>
            get_frequency_bias d = Some ''rock'' \<longrightarrow>
              fst (get_ai_move r g) = get_counter_move r ''rock'')"
proof
  let ?h = "move_history d"
  have mem: "''rock'' \<in> set ?h"
    using assms(2) count_list_0_iff [of ?h "''rock''"] by simp
  have share: "frequency_threshold d \<le> of_nat (count_list ?h m) / of_nat (length ?h) \<longleftrightarrow>
      3 \<le> count_list ?h m" for m
  proof -
    have "(3 / 10 :: rat) \<le> of_nat (count_list ?h m) / 10 \<longleftrightarrow>
        (3 :: rat) \<le> of_nat (count_list ?h m)"
      by simp
    also have "\<dots> \<longleftrightarrow> 3 \<le> count_list ?h m"
      by (metis of_nat_le_iff of_nat_numeral)
    finally show ?thesis by (simp add: assms)
  qed
  show "get_frequency_bias d = Some ''rock'' \<longleftrightarrow>
      (\<forall>m \<in> set (takeWhile (\<lambda>m. m \<noteq> ''rock'') ?h). count_list ?h m < 3)"
    unfolding get_frequency_bias_find find_Some_takeWhile share
    using mem assms(2) by (auto simp: not_le)
next
  show "\<forall>g r. pattern_detector g = d \<and> valid_moves g \<and>
      fst (get_pattern_prediction d) = Inr None \<and> get_frequency_bias d = Some ''rock'' \<longrightarrow>
      fst (get_ai_move r g) = get_counter_move r ''rock''"
    by (auto simp: fst_get_ai_move)
qed

theorem frequency_bias_rock_witness:
  "length [''rock'', ''paper'', ''rock'', ''paper'', ''scissors'',
           ''rock'', ''lizard'', ''rock'', ''spock'', ''scissors''] = 10 \<and>
   count_list [''rock'', ''paper'', ''rock'', ''paper'', ''scissors'',
           ''rock'', ''lizard'', ''rock'', ''spock'', ''scissors''] ''rock'' = 4 \<and>
   get_frequency_bias \<lparr>window_size = 3, frequency_threshold = 3 / 10,
      move_history = [''rock'', ''paper'', ''rock'', ''paper'', ''scissors'',
           ''rock'', ''lizard'', ''rock'', ''spock'', ''scissors''],
      pattern_cache = Map.empty\<rparr> = Some ''rock'' \<and>
   fst (get_pattern_prediction \<lparr>window_size = 3, frequency_threshold = 3 / 10,
      move_history = [''rock'', ''paper'', ''rock'', ''paper'', ''scissors'',
           ''rock'', ''lizard'', ''rock'', ''spock'', ''scissors''],
      pattern_cache = Map.empty\<rparr>) = Inr None \<and>
   fst (get_ai_move 0
     \<lparr>state = \<lparr>player_history = [], opponent_history = []\<rparr>,
      pattern_detector = \<lparr>window_size = 3, frequency_threshold = 3 / 10,
        move_history = [''rock'', ''paper'', ''rock'', ''paper'', ''scissors'',
           ''rock'', ''lizard'', ''rock'', ''spock'', ''scissors''],
        pattern_cache = Map.empty\<rparr>\<rparr>) = Inr ''paper''"
proof -
  define h where "h = [''rock'', ''paper'', ''rock'', ''paper'', ''scissors'',
           ''rock'', ''lizard'', ''rock'', ''spock'', ''scissors'']"
  define d where "d = \<lparr>window_size = 3, frequency_threshold = 3 / 10,
      move_history = h, pattern_cache = (Map.empty :: string \<rightharpoonup> string)\<rparr>"
  define g where "g = \<lparr>state = \<lparr>player_history = [], opponent_history = []\<rparr>,
      pattern_detector = d\<rparr>"
  have 1: "length (move_history d) = 10" by (simp add: d_def h_def)
  have 2: "count_list (move_history d) ''rock'' = 4" by (simp add: d_def h_def)
  have 3: "frequency_threshold d = 3 / 10" by (simp add: d_def)
  have 4: "\<forall>m \<in> set (takeWhile (\<lambda>m. m \<noteq> ''rock'') (move_history d)).
      count_list (move_history d) m < 3"
    by (simp add: d_def h_def)
  have v: "valid_moves g"
    by (simp add: g_def d_def h_def valid_moves_def valid_detector_def MOVES_def)
  have t1: "fst (get_pattern_prediction d) = Inr None"
    by (simp add: d_def h_def get_pattern_prediction_def py_last_n_def pattern_occurrences_def
        upt_rec)
  have pd: "pattern_detector g = d" by (simp add: g_def)
  from frequency_bias_rock [OF 1 2 3] 4 have bias: "get_frequency_bias d = Some ''rock''"
    by blast
  from frequency_bias_rock [OF 1 2 3] pd v t1 bias
  have "fst (get_ai_move 0 g) = get_counter_move 0 ''rock''" by blast
  then have "fst (get_ai_move 0 g) = Inr ''paper''"
    by (simp add: get_counter_move_def possible_counters_simps random_choice_def)
  with 1 2 bias t1 show ?thesis unfolding g_def d_def h_def by simp
qed

theorem frequency_bias_rock_counterexample:
  "length [''paper'', ''paper'', ''paper'', ''paper'', ''rock'',
           ''rock'', ''rock'', ''rock'', ''scissors'', ''lizard''] = 10 \<and>
   count_list [''paper'', ''paper'', ''paper'', ''paper'', ''rock'',
           ''rock'', ''rock'', ''rock'', ''scissors'', ''lizard''] ''rock'' = 4 \<and>
   frequency_threshold new_detector = 3 / 10 \<and>
   fst (get_pattern_prediction (new_detector\<lparr>move_history :=
          [''paper'', ''paper'', ''paper'', ''paper'', ''rock'',
           ''rock'', ''rock'', ''rock'', ''scissors'', ''lizard'']\<rparr>)) = Inr None \<and>
   get_frequency_bias (new_detector\<lparr>move_history :=
          [''paper'', ''paper'', ''paper'', ''paper'', ''rock'',
           ''rock'', ''rock'', ''rock'', ''scissors'', ''lizard'']\<rparr>) = Some ''paper'' \<and>
   get_frequency_bias (new_detector\<lparr>move_history :=
          [''paper'', ''paper'', ''paper'', ''paper'', ''rock'',
           ''rock'', ''rock'', ''rock'', ''scissors'', ''lizard'']\<rparr>) \<noteq> Some ''rock''"
  by (simp add: new_detector_def get_frequency_bias_find get_pattern_prediction_def
      py_last_n_def pattern_occurrences_def upt_rec)

text \<open>
  C4. The win relation is a closed table over the five moves: the keys of
  \<open>WINS_AGAINST\<close> are the moves and every win-set holds moves only. For two distinct
  moves exactly one beats the other. \<open>get_result a a\<close> is a draw (0) for every \<open>a\<close>, and
  \<open>get_result a b\<close> and \<open>get_result b a\<close> are never both a win (1).
\<close>

theorem win_relation_closed_consistent:
  "(\<forall>a. a \<in> set MOVES \<longleftrightarrow> (\<exists>beaten. WINS_AGAINST a = Some beaten \<and> set beaten \<subseteq> set MOVES)) \<and>
   (\<forall>a \<in> set MOVES. \<forall>b \<in> set MOVES. a \<noteq> b \<longrightarrow>
      (beats a b \<and> \<not> beats b a) \<or> (beats b a \<and> \<not> beats a b)) \<and>
   (\<forall>a. get_result a a = Inr 0) \<and>
   (\<forall>a b. \<not> (get_result a b = Inr 1 \<and> get_result b a = Inr 1))"
proof (intro conjI allI ballI impI)
  fix a
  show "a \<in> set MOVES \<longleftrightarrow> (\<exists>beaten. WINS_AGAINST a = Some beaten \<and> set beaten \<subseteq> set MOVES)"
  proof
    assume "a \<in> set MOVES"
    then obtain beaten where "WINS_AGAINST a = Some beaten"
      unfolding MOVES_cases by (elim disjE) (simp_all add: WINS_AGAINST_simps)
    then show "\<exists>beaten. WINS_AGAINST a = Some beaten \<and> set beaten \<subseteq> set MOVES"
      using WINS_AGAINST_closed by blast
  next
    assume "\<exists>beaten. WINS_AGAINST a = Some beaten \<and> set beaten \<subseteq> set MOVES"
    then show "a \<in> set MOVES" using WINS_AGAINST_dom by blast
  qed
next
  fix a b
  assume "a \<in> set MOVES" "b \<in> set MOVES" "a \<noteq> b"
  then show "(beats a b \<and> \<not> beats b a) \<or> (beats b a \<and> \<not> beats a b)"
    using beats_exactly_one [of a b] by blast
next
  fix a
  show "get_result a a = Inr 0" by (simp add: get_result_def)
next
  fix a b
  show "\<not> (get_result a b = Inr 1 \<and> get_result b a = Inr 1)"
  proof
    assume both: "get_result a b = Inr 1 \<and> get_result b a = Inr 1"
    then have ab: "beats a b" and ba: "beats b a" by (simp_all add: get_result_win_iff)
    then have "a \<in> set MOVES" "b \<in> set MOVES" using beats_moves by blast+
    moreover have "a \<noteq> b" using ab beats_irrefl by blast
    ultimately show False using beats_exactly_one [of a b] ab ba by blast
  qed
qed

theorem win_relation_closed_consistent_witness:
  "''rock'' \<in> set MOVES \<and> ''spock'' \<in> set MOVES \<and> ''rock'' \<noteq> ''spock'' \<and>
   beats ''spock'' ''rock'' \<and> \<not> beats ''rock'' ''spock'' \<and>
   get_result ''spock'' ''rock'' = Inr 1 \<and> get_result ''rock'' ''spock'' = Inr (- 1) \<and>
   get_result ''rock'' ''rock'' = Inr 0"
  using win_relation_closed_consistent
  by (simp add: MOVES_def beats_def get_result_def WINS_AGAINST_simps)

text \<open>
  C5. For every move \<open>m\<close> the list of counter-moves that \<open>get_counter_move\<close> computes
  has exactly two distinct entries; they are the moves whose win-set contains \<open>m\<close>;
  \<open>get_result c m\<close> is a win (1) for each of them, and \<open>get_counter_move\<close> returns one of
  the two, whatever number is drawn.
\<close>

theorem counter_moves_two_and_win:
  assumes "m \<in> set MOVES"
  shows "\<exists>c1 c2. possible_counters m = Inr [c1, c2] \<and> c1 \<noteq> c2 \<and>
           (\<forall>c. c \<in> set [c1, c2] \<longleftrightarrow> c \<in> set MOVES \<and> beats c m) \<and>
           (\<forall>c \<in> set [c1, c2]. get_result c m = Inr 1) \<and>
           (\<forall>r. get_counter_move r m = Inr c1 \<or> get_counter_move r m = Inr c2)"
proof -
  from possible_counters_two [OF assms] obtain c1 c2 where
    pc: "possible_counters m = Inr [c1, c2]" and neq: "c1 \<noteq> c2" and
    c: "c1 \<in> set MOVES" "c2 \<in> set MOVES" "beats c1 m" "beats c2 m"
    by blast
  have only: "c = c1 \<or> c = c2" if "c \<in> set MOVES" "beats c m" for c
    using that assms pc neq unfolding MOVES_cases
    by (elim disjE) (simp_all add: possible_counters_simps beats_def WINS_AGAINST_simps)
  have 1: "\<forall>c. c \<in> set [c1, c2] \<longleftrightarrow> c \<in> set MOVES \<and> beats c m"
    using c only by auto
  have 2: "\<forall>c \<in> set [c1, c2]. get_result c m = Inr 1"
    using c by (simp add: get_result_win_iff)
  have 3: "\<forall>r. get_counter_move r m = Inr c1 \<or> get_counter_move r m = Inr c2"
    using random_choice_two [of _ c1 c2] by (simp add: get_counter_move_def pc)
  from pc neq 1 2 3 show ?thesis by blast
qed

theorem counter_moves_two_and_win_witness:
  "''lizard'' \<in> set MOVES \<and>
   (\<exists>c1 c2. possible_counters ''lizard'' = Inr [c1, c2] \<and> c1 \<noteq> c2 \<and>
      get_result c1 ''lizard'' = Inr 1 \<and> get_result c2 ''lizard'' = Inr 1 \<and>
      (get_counter_move 7 ''lizard'' = Inr c1 \<or> get_counter_move 7 ''lizard'' = Inr c2))"
proof -
  have h: "''lizard'' \<in> set MOVES" by (simp add: MOVES_def)
  from counter_moves_two_and_win [OF h] obtain c1 c2 where
    "possible_counters ''lizard'' = Inr [c1, c2]" "c1 \<noteq> c2"
    "\<forall>c \<in> set [c1, c2]. get_result c ''lizard'' = Inr 1"
    "\<forall>r. get_counter_move r ''lizard'' = Inr c1 \<or> get_counter_move r ''lizard'' = Inr c2"
    by blast
  then show ?thesis using h by auto
qed

text \<open>
  C6. The first \<open>play_round\<close> of a new game returns a win (1) of the predictor, whatever
  the strategy name and the numbers drawn are, for a custom sequence that holds moves of
  the game and a round number that is not negative: the window holds the opponent's
  move alone, the pattern step predicts nothing, the frequency bias predicts that move,
  and the counter-move chosen beats it.
\<close>

theorem first_round_wins:
  assumes "valid_custom custom_moves" and "0 \<le> round_number"
  shows "\<exists>ai om g'.
     play_round opponent_strategy custom_moves round_number ro ra new_game =
       (Inr (ai, om, 1), g') \<and>
     opponent_move opponent_strategy custom_moves round_number ro new_game = Inr om \<and>
     move_history (add_move om (pattern_detector new_game)) = [om] \<and>
     get_frequency_bias (add_move om (pattern_detector new_game)) = Some om \<and>
     get_counter_move ra om = Inr ai \<and> get_result ai om = Inr 1"
proof -
  have hist: "set (opponent_history (state new_game)) \<subseteq> set MOVES"
    using new_game_valid by (simp add: valid_moves_def)
  from opponent_move_total [OF assms(1) hist assms(2)] obtain om where
    om: "opponent_move opponent_strategy custom_moves round_number ro new_game = Inr om"
    by blast
  from opponent_move_mem [OF assms(1) hist om] have mem: "om \<in> set MOVES" .
  have pd: "pattern_detector new_game = new_detector" by (simp add: new_game_def)
  let ?g1 = "new_game\<lparr>pattern_detector := add_move om new_detector\<rparr>"
  have v1: "valid_moves ?g1"
    using new_game_valid mem by (simp add: valid_moves_def add_move_valid pd)
  have sel: "pattern_detector ?g1 = add_move om new_detector" by simp
  have ai: "fst (get_ai_move ra ?g1) = get_counter_move ra om"
    unfolding fst_get_ai_move [OF v1] sel first_window(2,3) by simp
  from get_counter_move_valid [OF mem, of ra] obtain c where
    c: "get_counter_move ra om = Inr c" "get_result c om = Inr 1" by blast
  from play_round_played [OF new_game_valid om mem, of ra, unfolded pd] obtain ai' res g' where
    pr: "play_round opponent_strategy custom_moves round_number ro ra new_game =
           (Inr (ai', om, res), g')"
      "fst (get_ai_move ra ?g1) = Inr ai'" "get_result ai' om = Inr res"
    by blast
  from pr(2) ai c(1) have "ai' = c" by simp
  with pr(3) c(2) have "res = 1" by simp
  with pr(1) \<open>ai' = c\<close> om c first_window(1,3) [of om] show ?thesis
    by (simp add: pd)
qed

theorem first_round_wins_witness:
  "valid_custom (Some [''spock'', ''rock'']) \<and> (0 :: int) \<le> 0 \<and>
   fst (play_round ''custom'' (Some [''spock'', ''rock'']) 0 3 1 new_game) =
     Inr (''lizard'', ''spock'', 1)"
proof -
  have v: "valid_custom (Some [''spock'', ''rock''])"
    by (simp add: valid_custom_def MOVES_def)
  have z: "(0 :: int) \<le> 0" by simp
  from first_round_wins [OF v z, of "''custom''" 3 1] obtain ai om g' where
    pr: "play_round ''custom'' (Some [''spock'', ''rock'']) 0 3 1 new_game = (Inr (ai, om, 1), g')"
    and om: "opponent_move ''custom'' (Some [''spock'', ''rock'']) 0 3 new_game = Inr om"
    and ai: "get_counter_move 1 om = Inr ai"
    by blast
  from om have "om = ''spock''" by (simp add: opponent_move_def py_index_def)
  with ai have "ai = ''lizard''"
    by (simp add: get_counter_move_def possible_counters_simps random_choice_def)
  with pr \<open>om = ''spock''\<close> v show ?thesis by simp
qed

text \<open>
  C7. In a game reached from a new game by rounds played with moves of the game,
  \<open>play_round\<close> never lets \<open>get_ai_move\<close> reach its random fallback. Once the opponent's
  move \<open>om\<close> is there, one move \<open>p\<close> of the game is predicted by the first three tiers on
  the window that holds \<open>om\<close>, and for every number drawn \<open>play_round\<close> returns its
  triple with a move that is a counter-move of this same \<open>p\<close>: it beats \<open>p\<close> and is never
  \<open>p\<close>, so the moves of the round do not range over all of \<open>MOVES\<close>. The call of
  \<open>get_ai_move\<close> that \<open>play_round\<close> makes is the one on the window with \<open>om\<close> added, the
  tier that decides it is never the fallback, the window that \<open>play_round\<close> leaves is not
  empty, and with at most three moves in the window the frequency bias predicts (the
  first move of the window).
\<close>

theorem fallback_unreachable:
  assumes "reachable g" and "valid_custom custom_moves"
    and "opponent_move opponent_strategy custom_moves round_number ro g = Inr om"
  shows "\<exists>p. p \<in> set MOVES \<and>
     predicted_move (add_move om (pattern_detector g)) (opponent_history (state g)) p \<and>
     ai_tier (g\<lparr>pattern_detector := add_move om (pattern_detector g)\<rparr>) \<noteq> Random_fallback \<and>
     (length (move_history (add_move om (pattern_detector g))) \<le> 3 \<longrightarrow>
        get_frequency_bias (add_move om (pattern_detector g)) =
          Some (hd (move_history (add_move om (pattern_detector g))))) \<and>
     (\<forall>ra. \<exists>ai res g'.
        play_round opponent_strategy custom_moves round_number ro ra g =
          (Inr (ai, om, res), g') \<and>
        get_ai_move ra (g\<lparr>pattern_detector := add_move om (pattern_detector g)\<rparr>) =
          (Inr ai, g'\<lparr>state := state g\<rparr>) \<and>
        get_counter_move ra p = Inr ai \<and> get_result ai p = Inr 1 \<and> ai \<noteq> p \<and>
        get_result ai om = Inr res \<and>
        move_history (pattern_detector g') = move_history (add_move om (pattern_detector g)) \<and>
        move_history (pattern_detector g') \<noteq> [])"
proof -
  let ?d1 = "add_move om (pattern_detector g)"
  let ?g1 = "g\<lparr>pattern_detector := ?d1\<rparr>"
  from reachable_invariant [OF assms(1)] have
    v: "valid_moves g" and th: "frequency_threshold (pattern_detector g) = 3 / 10" and
    sync: "opponent_history (state g) = [] \<longrightarrow> move_history (pattern_detector g) = []"
    by simp_all
  from v have hist: "set (opponent_history (state g)) \<subseteq> set MOVES"
    by (simp add: valid_moves_def)
  from opponent_move_mem [OF assms(2) hist assms(3)] have mem: "om \<in> set MOVES" .
  have v1: "valid_moves ?g1"
    using v mem by (simp add: valid_moves_def add_move_valid)
  have short: "get_frequency_bias ?d1 = Some (hd (move_history ?d1))"
    if "length (move_history ?d1) \<le> 3"
    using get_frequency_bias_short [of ?d1] th that by simp
  have tier: "ai_tier ?g1 \<noteq> Random_fallback"
  proof (cases "opponent_history (state g) = []")
    case True
    with sync have "move_history ?d1 = [om]" by (simp add: add_move_def)
    with short have "get_frequency_bias ?d1 \<noteq> None" by simp
    then show ?thesis
      by (auto simp: ai_tier_eq [OF v1] split: sum.splits option.splits)
  next
    case False
    then show ?thesis
      by (auto simp: ai_tier_eq [OF v1] split: sum.splits option.splits)
  qed
  from get_ai_move_predicted [OF v1 tier] obtain p where
    p: "p \<in> set MOVES" "predicted_move ?d1 (opponent_history (state g)) p"
       "\<forall>r. fst (get_ai_move r ?g1) = get_counter_move r p"
    by auto
  have round: "\<exists>ai res g'.
      play_round opponent_strategy custom_moves round_number ro ra g = (Inr (ai, om, res), g') \<and>
      get_ai_move ra ?g1 = (Inr ai, g'\<lparr>state := state g\<rparr>) \<and>
      get_counter_move ra p = Inr ai \<and> get_result ai p = Inr 1 \<and> ai \<noteq> p \<and>
      get_result ai om = Inr res \<and>
      move_history (pattern_detector g') = move_history ?d1 \<and>
      move_history (pattern_detector g') \<noteq> []" for ra
  proof -
    from play_round_played [OF v assms(3) mem, of ra] obtain ai res g' where
      pr: "play_round opponent_strategy custom_moves round_number ro ra g = (Inr (ai, om, res), g')"
      and ai: "fst (get_ai_move ra ?g1) = Inr ai"
      and res: "get_result ai om = Inr res"
      and pd: "pattern_detector g' = snd (get_pattern_prediction ?d1)"
      by blast
    from ai p(3) have c: "get_counter_move ra p = Inr ai" by simp
    from get_counter_move_valid [OF p(1), of ra] c have win: "get_result ai p = Inr 1" by auto
    then have neq: "ai \<noteq> p" by (auto simp: get_result_def)
    have "snd (get_ai_move ra ?g1) = g'\<lparr>state := state g\<rparr>"
      by (simp add: snd_get_ai_move pd [symmetric])
    with ai have call: "get_ai_move ra ?g1 = (Inr ai, g'\<lparr>state := state g\<rparr>)"
      by (simp add: prod_eq_iff)
    from pr call c win neq res pd show ?thesis by simp
  qed
  from p(1,2) tier short round show ?thesis by blast
qed

theorem fallback_unreachable_witness:
  "reachable new_game \<and> valid_custom None \<and>
   opponent_move ''cycling'' None 0 0 new_game = Inr ''rock'' \<and>
   predicted_move (add_move ''rock'' (pattern_detector new_game))
     (opponent_history (state new_game)) ''rock'' \<and>
   fst (play_round ''cycling'' None 0 0 1 new_game) = Inr (''spock'', ''rock'', 1) \<and>
   reachable (snd (play_round ''cycling'' None 0 0 1 new_game)) \<and>
   opponent_move ''cycling'' None 1 0 (snd (play_round ''cycling'' None 0 0 1 new_game)) =
     Inr ''paper'' \<and>
   fst (play_round ''cycling'' None 1 0 0 (snd (play_round ''cycling'' None 0 0 1 new_game))) =
     Inr (''paper'', ''paper'', 0)"
proof -
  have r: "reachable new_game" by (rule reachable.start)
  have v: "valid_custom None" by (simp add: valid_custom_def)
  have om: "opponent_move ''cycling'' None 0 0 new_game = Inr ''rock''"
    by (simp add: opponent_move_def new_game_def MOVES_def)
  have pd: "pattern_detector new_game = new_detector" by (simp add: new_game_def)
  have none: "\<not> predicted_move (add_move ''rock'' (pattern_detector new_game))
      (opponent_history (state new_game)) q" if "q \<noteq> ''rock''" for q
    using that first_window(2,3) [of "''rock''"] by (simp add: predicted_move_def pd)
  from fallback_unreachable [OF r v om] obtain p where
    p: "predicted_move (add_move ''rock'' (pattern_detector new_game))
          (opponent_history (state new_game)) p"
    and all: "\<forall>ra. \<exists>ai res g'.
        play_round ''cycling'' None 0 0 ra new_game = (Inr (ai, ''rock'', res), g') \<and>
        get_counter_move ra p = Inr ai \<and> get_result ai ''rock'' = Inr res"
    by blast
  from p none have rock: "p = ''rock''" by blast
  from all obtain ai res g' where
    pr: "play_round ''cycling'' None 0 0 1 new_game = (Inr (ai, ''rock'', res), g')"
    and c: "get_counter_move 1 p = Inr ai" and res: "get_result ai ''rock'' = Inr res"
    by blast
  from c rock have ai: "ai = ''spock''"
    by (simp add: get_counter_move_def possible_counters_simps random_choice_def)
  with res have one: "res = 1" by (simp add: get_result_def WINS_AGAINST_simps)
  have first: "fst (play_round ''cycling'' None 0 0 1 new_game) = Inr (''spock'', ''rock'', 1)"
    using pr ai one by simp
  define g2 where "g2 = snd (play_round ''cycling'' None 0 0 1 new_game)"
  have r2: "reachable g2" unfolding g2_def using r v by (rule reachable.round)
  from play_round_played [OF new_game_valid om, of 1] pr
  have h2: "opponent_history (state g2) = [''rock'']"
    and d2: "pattern_detector g2 = snd (get_pattern_prediction (add_move ''rock'' new_detector))"
    unfolding g2_def by (auto simp: MOVES_def new_game_def)
  have d2': "pattern_detector g2 = add_move ''rock'' new_detector"
    unfolding d2 by (simp add: get_pattern_prediction_def add_move_def new_detector_def)
  have om2: "opponent_move ''cycling'' None 1 0 g2 = Inr ''paper''"
    by (simp add: opponent_move_def h2 MOVES_def)
  have w2: "move_history (add_move ''paper'' (pattern_detector g2)) = [''rock'', ''paper'']"
    by (simp add: d2' add_move_def new_detector_def)
  have t2: "fst (get_pattern_prediction (add_move ''paper'' (pattern_detector g2))) = Inr None"
    by (simp add: get_pattern_prediction_def w2) (simp add: d2' new_detector_def)
  have th2: "frequency_threshold (add_move ''paper'' (pattern_detector g2)) = 3 / 10"
    by (simp add: d2' new_detector_def)
  have b2: "get_frequency_bias (add_move ''paper'' (pattern_detector g2)) = Some ''rock''"
    using get_frequency_bias_short [OF th2] by (simp add: w2)
  from fallback_unreachable [OF r2 v om2] obtain p2 where
    p2: "predicted_move (add_move ''paper'' (pattern_detector g2))
          (opponent_history (state g2)) p2"
    and all2: "\<forall>ra. \<exists>ai res g'.
        play_round ''cycling'' None 1 0 ra g2 = (Inr (ai, ''paper'', res), g') \<and>
        get_counter_move ra p2 = Inr ai \<and> get_result ai ''paper'' = Inr res"
    by blast
  from p2 t2 b2 have rock2: "p2 = ''rock''" by (simp add: predicted_move_def)
  from all2 obtain ai2 res2 g2' where
    pr2: "play_round ''cycling'' None 1 0 0 g2 = (Inr (ai2, ''paper'', res2), g2')"
    and c2: "get_counter_move 0 p2 = Inr ai2" and res2: "get_result ai2 ''paper'' = Inr res2"
    by blast
  from c2 rock2 have ai2: "ai2 = ''paper''"
    by (simp add: get_counter_move_def possible_counters_simps random_choice_def)
  with res2 have "res2 = 0" by (simp add: get_result_def)
  with pr2 ai2 have second: "fst (play_round ''cycling'' None 1 0 0 g2) =
      Inr (''paper'', ''paper'', 0)"
    by simp
  from p rock have "predicted_move (add_move ''rock'' (pattern_detector new_game))
      (opponent_history (state new_game)) ''rock''" by simp
  with r v om first r2 om2 second show ?thesis unfolding g2_def by blast
qed

text \<open>
  C8. A strategy name other than random, repeating, cycling and custom makes
  \<open>play_round\<close> behave as with random: the same result and the same game for the same
  draws. The opponent's move is the draw from \<open>MOVES\<close>, no exception comes from the
  name, and in a game that records moves of the game only the round returns its triple.
\<close>

theorem unknown_strategy_is_random:
  assumes "opponent_strategy \<notin> {''random'', ''repeating'', ''cycling'', ''custom''}"
  shows "play_round opponent_strategy custom_moves round_number ro ra g =
           play_round ''random'' custom_moves round_number ro ra g \<and>
         opponent_move opponent_strategy custom_moves round_number ro g =
           Inr (MOVES ! (ro mod 5)) \<and>
         (valid_moves g \<longrightarrow>
            (\<exists>ai res. fst (play_round opponent_strategy custom_moves round_number ro ra g) =
               Inr (ai, MOVES ! (ro mod 5), res)))"
proof -
  have rc: "random_choice ro MOVES = Inr (MOVES ! (ro mod 5))"
    by (simp add: random_choice_def MOVES_length) (simp add: MOVES_def)
  have om: "opponent_move opponent_strategy custom_moves round_number ro g =
      Inr (MOVES ! (ro mod 5))"
    using assms by (simp add: opponent_move_def rc)
  have om': "opponent_move ''random'' custom_moves round_number ro g = Inr (MOVES ! (ro mod 5))"
    by (simp add: opponent_move_def rc)
  have eq: "play_round opponent_strategy custom_moves round_number ro ra g =
      play_round ''random'' custom_moves round_number ro ra g"
    by (simp add: play_round_def om om')
  have mem: "MOVES ! (ro mod 5) \<in> set MOVES"
    by (simp add: MOVES_length)
  have "\<exists>ai res. fst (play_round opponent_strategy custom_moves round_number ro ra g) =
      Inr (ai, MOVES ! (ro mod 5), res)" if "valid_moves g"
    using play_round_played [OF that om mem, of ra] by auto
  with eq om show ?thesis by blast
qed

theorem unknown_strategy_is_random_witness:
  "''mirror'' \<notin> {''random'', ''repeating'', ''cycling'', ''custom''} \<and>
   play_round ''mirror'' None 0 7 2 new_game = play_round ''random'' None 0 7 2 new_game \<and>
   opponent_move ''mirror'' None 0 7 new_game = Inr ''scissors'' \<and>
   valid_moves new_game"
proof -
  have s: "''mirror'' \<notin> {''random'', ''repeating'', ''cycling'', ''custom''}" by simp
  from unknown_strategy_is_random [OF s, of None 0 7 2 new_game] new_game_valid s
  show ?thesis by (simp add: MOVES_def)
qed

text \<open>
  C9. When the window holds at least \<open>window_size\<close> moves and the cache has an entry
  \<open>v\<close> for the key of the last \<open>window_size\<close> moves, \<open>get_pattern_prediction\<close> returns
  \<open>v\<close> and leaves the detector as it is, so every one of any number of repeated calls
  returns \<open>v\<close> on the same detector. An entry of the cache, once there, is the same in
  every later state of the game, whatever is called on the game with whatever
  arguments.
\<close>

theorem pattern_cache_idempotent_and_stable:
  "(window_size d \<le> length (move_history d) \<and>
    pattern_cache d (concat (py_last_n (move_history d) (window_size d))) = Some v \<longrightarrow>
      (\<forall>n. get_pattern_prediction (((\<lambda>d. snd (get_pattern_prediction d)) ^^ n) d) =
              (Inr (Some v), d))) \<and>
   (evolves g g' \<and> pattern_cache (pattern_detector g) k = Some u \<longrightarrow>
      pattern_cache (pattern_detector g') k = Some u)"
proof (intro conjI impI allI)
  fix n
  assume a: "window_size d \<le> length (move_history d) \<and>
    pattern_cache d (concat (py_last_n (move_history d) (window_size d))) = Some v"
  then have hit: "get_pattern_prediction d = (Inr (Some v), d)"
    by (simp add: get_pattern_prediction_hit)
  have "((\<lambda>d. snd (get_pattern_prediction d)) ^^ n) d = d"
    by (induction n) (simp_all add: hit)
  with hit show "get_pattern_prediction (((\<lambda>d. snd (get_pattern_prediction d)) ^^ n) d) =
      (Inr (Some v), d)"
    by simp
next
  assume "evolves g g' \<and> pattern_cache (pattern_detector g) k = Some u"
  then show "pattern_cache (pattern_detector g') k = Some u"
    using evolves_cache_mono by blast
qed

theorem pattern_cache_idempotent_and_stable_witness:
  "window_size \<lparr>window_size = 3, frequency_threshold = 3 / 10,
      move_history = [''rock'', ''paper'', ''scissors''],
      pattern_cache = [''rockpaperscissors'' \<mapsto> ''lizard'']\<rparr>
     \<le> length [''rock'', ''paper'', ''scissors''] \<and>
   fst (get_pattern_prediction (snd (get_pattern_prediction
     \<lparr>window_size = 3, frequency_threshold = 3 / 10,
      move_history = [''rock'', ''paper'', ''scissors''],
      pattern_cache = [''rockpaperscissors'' \<mapsto> ''lizard'']\<rparr>))) = Inr (Some ''lizard'') \<and>
   pattern_cache (pattern_detector (snd (play_round ''cycling'' None 3 0 0
     \<lparr>state = \<lparr>player_history = [''paper'', ''scissors'', ''rock''],
                opponent_history = [''rock'', ''paper'', ''scissors'']\<rparr>,
      pattern_detector = \<lparr>window_size = 3, frequency_threshold = 3 / 10,
        move_history = [''rock'', ''paper'', ''scissors''],
        pattern_cache = [''rockpaperscissors'' \<mapsto> ''lizard'']\<rparr>\<rparr>)))
     ''rockpaperscissors'' = Some ''lizard''"
proof -
  define d where "d = \<lparr>window_size = 3, frequency_threshold = 3 / 10,
      move_history = [''rock'', ''paper'', ''scissors''],
      pattern_cache = [''rockpaperscissors'' \<mapsto> ''lizard'']\<rparr>"
  define g where "g = \<lparr>state = \<lparr>player_history = [''paper'', ''scissors'', ''rock''],
                opponent_history = [''rock'', ''paper'', ''scissors'']\<rparr>,
      pattern_detector = d\<rparr>"
  define g' where "g' = snd (play_round ''cycling'' None 3 0 0 g)"
  have pre: "window_size d \<le> length (move_history d) \<and>
    pattern_cache d (concat (py_last_n (move_history d) (window_size d))) = Some ''lizard''"
    by (simp add: d_def py_last_n_def)
  have ev: "evolves g g' \<and> pattern_cache (pattern_detector g) ''rockpaperscissors'' = Some ''lizard''"
    unfolding g'_def by (simp add: evolves.played evolves.same) (simp add: g_def d_def)
  from pattern_cache_idempotent_and_stable [of d "''lizard''" g g' "''rockpaperscissors''" "''lizard''"]
    pre ev
  have 1: "get_pattern_prediction (((\<lambda>d. snd (get_pattern_prediction d)) ^^ Suc 0) d) =
      (Inr (Some ''lizard''), d)"
    and 2: "pattern_cache (pattern_detector g') ''rockpaperscissors'' = Some ''lizard''"
    by blast+
  from 1 have "fst (get_pattern_prediction (snd (get_pattern_prediction d))) = Inr (Some ''lizard'')"
    by simp
  with 2 show ?thesis unfolding g'_def g_def d_def by simp
qed

text \<open>
  C10. With the cycling strategy on a new game the opponent's moves of the first five
  rounds are the five moves in the order of \<open>MOVES\<close>, each once, whatever is drawn; in
  general the move of round \<open>j\<close> (counted from 0) is the entry \<open>j mod 5\<close> of \<open>MOVES\<close>. In
  any game the cycling move is the first entry when the opponent has no history, and
  the entry after the opponent's last move, wrapping after the fifth, otherwise.
\<close>

theorem cycling_visits_moves_in_order:
  "(\<exists>rounds g'. demonstrate_game 5 ''cycling'' custom_moves ro ra = Inr (rounds, g') \<and>
      map (\<lambda>(ai, om, res). om) rounds = MOVES \<and> distinct MOVES) \<and>
   (\<exists>rounds g'. demonstrate_game n ''cycling'' custom_moves ro ra = Inr (rounds, g') \<and>
      map (\<lambda>(ai, om, res). om) rounds = map (\<lambda>j. MOVES ! (j mod 5)) [0..<n]) \<and>
   (opponent_history (state g) = [] \<longrightarrow>
      opponent_move ''cycling'' custom_moves round_number r g = Inr (MOVES ! 0)) \<and>
   (k < 5 \<and> opponent_history (state g) \<noteq> [] \<and> last (opponent_history (state g)) = MOVES ! k \<longrightarrow>
      opponent_move ''cycling'' custom_moves round_number r g = Inr (MOVES ! (Suc k mod 5)))"
proof -
  have start: "opponent_history (state new_game) = [] \<and> (0 :: nat) = 0 \<or>
      opponent_history (state new_game) \<noteq> [] \<and>
        last (opponent_history (state new_game)) = MOVES ! ((0 + 4) mod 5)"
    by (simp add: new_game_def)
  have general: "\<exists>rounds g'. demonstrate_game m ''cycling'' custom_moves ro ra = Inr (rounds, g') \<and>
      map (\<lambda>(ai, om, res). om) rounds = map (\<lambda>j. MOVES ! (j mod 5)) [0..<m]" for m
    using play_rounds_cycling [OF new_game_valid _ start, of custom_moves ro ra 0 m]
    by (simp add: demonstrate_game_def)
  have five: "map (\<lambda>j. MOVES ! (j mod 5)) [0..<5] = MOVES"
    by (simp add: MOVES_def upt_rec)
  have d: "distinct MOVES" by (simp add: MOVES_def)
  from general [of 5] five d general [of n] cycling_first [of g custom_moves round_number r]
    cycling_next [of k g custom_moves round_number r]
  show ?thesis by auto
qed

theorem cycling_visits_moves_in_order_witness:
  "(\<exists>rounds g'. demonstrate_game 5 ''cycling'' None (\<lambda>i. 0) (\<lambda>i. i) = Inr (rounds, g') \<and>
      map (\<lambda>(ai, om, res). om) rounds = [''rock'', ''paper'', ''scissors'', ''lizard'', ''spock'']) \<and>
   opponent_history (state new_game) = [] \<and>
   opponent_move ''cycling'' None 0 0 new_game = Inr ''rock'' \<and>
   (4 :: nat) < 5 \<and>
   opponent_history \<lparr>player_history = [''lizard''], opponent_history = [''spock'']\<rparr> \<noteq> [] \<and>
   last (opponent_history \<lparr>player_history = [''lizard''], opponent_history = [''spock'']\<rparr>) =
     MOVES ! 4 \<and>
   opponent_move ''cycling'' None 1 0
     \<lparr>state = \<lparr>player_history = [''lizard''], opponent_history = [''spock'']\<rparr>,
      pattern_detector = add_move ''spock'' new_detector\<rparr> = Inr ''rock''"
proof -
  define g where "g = \<lparr>state = \<lparr>player_history = [''lizard''], opponent_history = [''spock'']\<rparr>,
      pattern_detector = add_move ''spock'' new_detector\<rparr>"
  have e: "opponent_history (state new_game) = []" by (simp add: new_game_def)
  have l: "4 < (5 :: nat) \<and> opponent_history (state g) \<noteq> [] \<and>
      last (opponent_history (state g)) = MOVES ! 4"
    by (simp add: g_def MOVES_def)
  from cycling_visits_moves_in_order [of None "\<lambda>i. 0" "\<lambda>i. i" 5 new_game 0 0 4] e
  have 1: "\<exists>rounds g'. demonstrate_game 5 ''cycling'' None (\<lambda>i. 0) (\<lambda>i. i) = Inr (rounds, g') \<and>
      map (\<lambda>(ai, om, res). om) rounds = [''rock'', ''paper'', ''scissors'', ''lizard'', ''spock'']"
    and 2: "opponent_move ''cycling'' None 0 0 new_game = Inr ''rock''"
    by (auto simp: MOVES_def)
  from cycling_visits_moves_in_order [of None "\<lambda>i. 0" "\<lambda>i. i" 5 g 1 0 4] l
  have 3: "opponent_move ''cycling'' None 1 0 g = Inr ''rock''"
    by (auto simp: MOVES_def)
  from 1 2 3 e l show ?thesis unfolding g_def by simp
qed

end
